theory Spec2Isabelle
  imports Main "HOL-Library.AList" "HOL-Library.Multiset" "HOL-Library.Sublist"
    "HOL-Library.Log_Nat"
begin

section \<open>Data model\<close>

text \<open>
  The exceptions the client can raise. \<open>ValueError\<close> is what \<open>get_sess_cookie\<close> raises for
  invalid credentials (and what dateutil's parser raises), \<open>RuntimeError\<close> is raised only by
  the staleness check of \<open>find_latest_user\<close>, \<open>OverflowError\<close> by the conversions between
  integers and floats, \<open>CookieConflictError\<close> by the cookie jar of the requests library,
  and \<open>RequestException\<close> stands for every connection-level failure of that library
  (retries exhausted, timeout).
\<close>

datatype error =
    TypeError
  | KeyError
  | AttributeError
  | ValueError
  | RuntimeError
  | OverflowError
  | CookieConflictError
  | RequestException

text \<open>A decoded JSON document. A Python dict is an association list in insertion order.\<close>

datatype jval =
    JNull
  | JBool bool
  | JNum int
  | JStr string
  | JArr "jval list"
  | JObj "(string \<times> jval) list"

type_synonym dict = "(string \<times> jval) list"

text \<open>
  A status object of a timeline: the fields the client reads, the identifier and the
  creation time (the value of \<open>date_parse(post["created_at"]).replace(tzinfo=utc)\<close>, in
  microseconds since the epoch), and the \<open>_pulled\<close> stamp the client writes.
\<close>

record post =
  pid :: int
  created_at :: int
  pulled :: "string option"

text \<open>
  The body of an HTTP response, as the client decodes it: the sign-in page with what
  BeautifulSoup finds for \<open>meta name="csrf-token"\<close> (\<open>None\<close>: no such tag, \<open>Some None\<close>: a tag
  without a \<open>content\<close> attribute, \<open>Some (Some s)\<close>: the attribute's value), a JSON document,
  a JSON array of status objects, or a body that is not JSON.
\<close>

datatype body =
    Html "string option option"
  | JsonValue jval
  | JsonStatuses "post list"
  | Undecodable

record response =
  status :: nat
  body :: body
  cookies :: "(string \<times> string) list"

datatype endpoint =
    SignIn
  | Account int
  | Group int
  | Statuses int bool "int option"
  | GroupTimeline int nat

datatype request =
    HttpGet endpoint
  | HttpPost endpoint "(string \<times> string) list"

text \<open>What \<open>response.json()\<close> returns; \<open>None\<close> is a \<open>JSONDecodeError\<close>.\<close>

datatype decoded = Document jval | Timeline "post list"

fun json :: "response \<Rightarrow> decoded option" where
  "json r =
     (case body r of
        JsonValue j \<Rightarrow> Some (Document j)
      | JsonStatuses ps \<Rightarrow> Some (Timeline ps)
      | Html m \<Rightarrow> None
      | Undecodable \<Rightarrow> None)"

text \<open>
  \<open>self._get\<close> as a caller observes it: the response, or the exception it raised.
\<close>

type_synonym getter = "request \<Rightarrow> error + response"

section \<open>Fetching one entity\<close>

text \<open>
  \<open>pull_user\<close> and \<open>pull_group\<close>: both \<open>except\<close> clauses return \<open>None\<close>; a decoded document
  that is not a dict has no \<open>get\<close> method, and that call is outside the \<open>try\<close>.
  \<open>now\<close> is \<open>datetime.now().isoformat()\<close>.
\<close>

definition stamp_entity :: "string \<Rightarrow> decoded \<Rightarrow> error + dict option" where
  "stamp_entity now result =
     (case result of
        Document (JObj d) \<Rightarrow>
          if map_of d ''error'' = Some (JStr ''Record not found'') then Inr None
          else Inr (Some (AList.update ''_pulled'' (JStr now) d))
      | _ \<Rightarrow> Inl AttributeError)"

definition pull_user :: "getter \<Rightarrow> string \<Rightarrow> int \<Rightarrow> error + dict option" where
  "pull_user get now ident =
     (case get (HttpGet (Account ident)) of
        Inl e \<Rightarrow> Inr None
      | Inr r \<Rightarrow>
          (case json r of
             None \<Rightarrow> Inr None
           | Some result \<Rightarrow> stamp_entity now result))"

definition pull_group :: "getter \<Rightarrow> string \<Rightarrow> int \<Rightarrow> error + dict option" where
  "pull_group get now ident =
     (case get (HttpGet (Group ident)) of
        Inl e \<Rightarrow> Inr None
      | Inr r \<Rightarrow>
          (case json r of
             None \<Rightarrow> Inr None
           | Some result \<Rightarrow> stamp_entity now result))"

section \<open>Finding the latest user\<close>

text \<open>
  \<open>round(upper_bound * 1.2)\<close> is computed in double precision: the integer is converted to
  a double, multiplied by the double nearest to 1.2, and the product is rounded to an
  integer; each of the three steps rounds to nearest, ties to even.

  \<open>rne N d\<close> is the integer nearest to \<open>N / 2 ^ d\<close>, ties to even, for \<open>N\<close> not below 0.
\<close>

definition rne :: "int \<Rightarrow> nat \<Rightarrow> int" where
  "rne N d =
     (let q = N div 2 ^ d; r = N mod 2 ^ d in
      if 2 ^ d < 2 * r \<or> (2 * r = 2 ^ d \<and> odd q) then q + 1 else q)"

text \<open>
  A number not below 0 rounded to 53 significant bits, the precision of a double: the bits
  below the 53 leading ones are rounded away. (No number here is small enough to be
  subnormal.)
\<close>

definition round53 :: "int \<Rightarrow> int" where
  "round53 N = (let d = nat (bitlen N - 53) in rne N d * 2 ^ d)"

text \<open>
  The double nearest to 1.2 is \<open>5404319552844595 / 2 ^ 52\<close>. The conversion of an integer
  raises \<open>OverflowError\<close> when the double would be \<open>2 ^ 1024\<close> or more; the product is computed
  here as a multiple of \<open>2 ^ -52\<close>; a product of \<open>2 ^ 1024\<close> or more is infinite, and \<open>round\<close>
  raises \<open>OverflowError\<close> on it. A negative number gives the negated result.
\<close>

definition bump :: "int \<Rightarrow> error + int" where
  "bump n =
     (let a = round53 \<bar>n\<bar> in
      if 2 ^ 1024 \<le> a then Inl OverflowError
      else
        let p = round53 (a * 5404319552844595) in
        if 2 ^ 1024 * 2 ^ 52 \<le> p then Inl OverflowError
        else Inr (sgn n * rne p 52))"

type_synonym puller = "int \<Rightarrow> error + dict option"

text \<open>
  The first loop of \<open>find_latest_user\<close>. It has no bound of its own: \<open>None\<close> is the loop
  that never ends.
\<close>

partial_function (option) probe :: "puller \<Rightarrow> int \<Rightarrow> (error + int) option" where
  "probe pull upper_bound =
     (case pull upper_bound of
        Inl e \<Rightarrow> Some (Inl e)
      | Inr None \<Rightarrow> Some (Inr upper_bound)
      | Inr (Some u) \<Rightarrow>
          (case bump upper_bound of
             Inl e \<Rightarrow> Some (Inl e)
           | Inr bumped \<Rightarrow> probe pull bumped))"

text \<open>The second loop: binary search, keeping the last user found.\<close>

function bsearch :: "puller \<Rightarrow> int \<Rightarrow> int \<Rightarrow> dict option \<Rightarrow> error + dict option" where
  "bsearch pull lower_bound upper_bound user =
     (if lower_bound \<le> upper_bound then
        (case pull ((lower_bound + upper_bound) div 2) of
           Inl e \<Rightarrow> Inl e
         | Inr None \<Rightarrow>
             bsearch pull lower_bound ((lower_bound + upper_bound) div 2 - 1) user
         | Inr (Some middle_user) \<Rightarrow>
             bsearch pull ((lower_bound + upper_bound) div 2 + 1) upper_bound
               (Some middle_user))
      else Inr user)"
  by pat_completeness auto
termination
  by (relation "measure (\<lambda>(pull, lo, hi, user). nat (hi - lo + 1))") auto

definition find_candidate_from :: "int \<Rightarrow> puller \<Rightarrow> (error + dict option) option" where
  "find_candidate_from lower_bound pull =
     (case probe pull lower_bound of
        None \<Rightarrow> None
      | Some (Inl e) \<Rightarrow> Some (Inl e)
      | Some (Inr upper_bound) \<Rightarrow> Some (bsearch pull lower_bound upper_bound None))"

definition find_candidate :: "puller \<Rightarrow> (error + dict option) option" where
  "find_candidate pull = find_candidate_from 5318531 pull"

text \<open>
  The check after the search. \<open>parse s\<close> is
  \<open>date_parse(s).replace(tzinfo=timezone.utc)\<close> in microseconds since the epoch, \<open>None\<close>
  when dateutil rejects the string; \<open>utcnow\<close> is \<open>datetime.utcnow()\<close> in the same unit.
  Both log messages read \<open>user['username']\<close>, the second one \<open>user['id']\<close> too.
\<close>

definition thirty_minutes :: int where
  "thirty_minutes = 30 * 60 * 1000000"

definition validate :: "(string \<Rightarrow> int option) \<Rightarrow> int \<Rightarrow> dict option \<Rightarrow> error + dict" where
  "validate parse utcnow user =
     (case user of
        None \<Rightarrow> Inl TypeError
      | Some u \<Rightarrow>
          (case map_of u ''created_at'' of
             None \<Rightarrow> Inl KeyError
           | Some (JStr s) \<Rightarrow>
               (case parse s of
                  None \<Rightarrow> Inl ValueError
                | Some created \<Rightarrow>
                    if utcnow - created > thirty_minutes then
                      (case map_of u ''username'' of
                         None \<Rightarrow> Inl KeyError
                       | Some _ \<Rightarrow> Inl RuntimeError)
                    else
                      (case map_of u ''username'' of
                         None \<Rightarrow> Inl KeyError
                       | Some _ \<Rightarrow>
                           (case map_of u ''id'' of
                              None \<Rightarrow> Inl KeyError
                            | Some _ \<Rightarrow> Inr u)))
           | Some _ \<Rightarrow> Inl TypeError))"

definition find_latest_user ::
  "(string \<Rightarrow> int option) \<Rightarrow> int \<Rightarrow> puller \<Rightarrow> (error + dict) option" where
  "find_latest_user parse utcnow pull =
     (case find_candidate pull of
        None \<Rightarrow> None
      | Some (Inl e) \<Rightarrow> Some (Inl e)
      | Some (Inr user) \<Rightarrow> Some (validate parse utcnow user))"

section \<open>Paginating a user's statuses\<close>

text \<open>\<open>.date()\<close> of a creation time, as a day number.\<close>

definition usec_per_day :: int where
  "usec_per_day = 24 * 60 * 60 * 1000000"

definition date_of :: "post \<Rightarrow> int" where
  "date_of p = created_at p div usec_per_day"

text \<open>
  \<open>created_after and d < created_after\<close>: the option \<open>--created-after\<close> is a date or
  \<open>None\<close>, and a date is always true.
\<close>

definition too_old :: "int option \<Rightarrow> int \<Rightarrow> bool" where
  "too_old created_after d = (case created_after of None \<Rightarrow> False | Some c \<Rightarrow> d < c)"

text \<open>
  The local state of \<open>pull_statuses\<close>: \<open>params["max_id"]\<close> and \<open>all_posts\<close>, the number
  of clock reads so far, and a record of what the loop did: the cursor of every request
  sent, every page received (sorted), and the posts each page added to \<open>all_posts\<close>.
\<close>

record statuses_state =
  max_id :: "int option"
  all_posts :: "post list"
  ticks :: nat
  requested :: "int option list"
  fetched :: "post list list"
  segments :: "post list list"

datatype 'a flow = Continue 'a | Break 'a | Raise error 'a

text \<open>
  The \<open>for post in posts\<close> loop: every post is stamped with the clock, and appended unless it
  is older than the cutoff. \<open>clock t\<close> is the \<open>t\<close>-th reading of
  \<open>datetime.now().isoformat()\<close>.
\<close>

fun for_posts :: "(nat \<Rightarrow> string) \<Rightarrow> int option \<Rightarrow> nat \<Rightarrow> post list \<Rightarrow> post list \<Rightarrow> post list" where
  "for_posts clock created_after t [] acc = acc"
| "for_posts clock created_after t (p # ps) acc =
     (let p' = p\<lparr>pulled := Some (clock t)\<rparr> in
      if too_old created_after (date_of p') then for_posts clock created_after (Suc t) ps acc
      else for_posts clock created_after (Suc t) ps (acc @ [p']))"

text \<open>
  The exception of the key \<open>k["id"]\<close> that \<open>sorted\<close> applies to the elements of an array,
  in their order: \<open>TypeError\<close> on an element that is not an object, \<open>KeyError\<close> on an object
  without an \<open>id\<close>.
\<close>

fun id_failure :: "jval list \<Rightarrow> error option" where
  "id_failure [] = None"
| "id_failure (JObj d # xs) = (if map_of d ''id'' = None then Some KeyError else id_failure xs)"
| "id_failure (x # xs) = Some TypeError"

text \<open>
  A decoded body that is not an array of status objects. \<open>"error" in result\<close> is a key
  test on a dict, a membership test on a list and a substring test on a string, and fails
  on a number, a boolean and \<open>null\<close>; \<open>len(result) == 0\<close> ends the walk; anything else
  reaches \<open>sorted\<close>, whose key \<open>k["id"]\<close> fails on a key of the dict, on a character of the
  string, and on the first element of the array that is not an object with an \<open>id\<close>. An
  array of status objects is a \<open>Timeline\<close>; an array given as a document in which every
  element is an object with an \<open>id\<close> is one of objects without \<open>created_at\<close>, the key read
  next.
\<close>

definition not_statuses :: "jval \<Rightarrow> 'a \<Rightarrow> 'a flow" where
  "not_statuses j st =
     (case j of
        JObj d \<Rightarrow>
          if map_of d ''error'' \<noteq> None then Break st
          else if d = [] then Break st
          else Raise TypeError st
      | JArr xs \<Rightarrow>
          if JStr ''error'' \<in> set xs then Break st
          else if xs = [] then Break st
          else
            (case id_failure xs of
               Some e \<Rightarrow> Raise e st
             | None \<Rightarrow> Raise KeyError st)
      | JStr s \<Rightarrow>
          if sublist ''error'' s then Break st
          else if s = [] then Break st
          else Raise TypeError st
      | _ \<Rightarrow> Raise TypeError st)"

text \<open>
  One turn of the \<open>while True\<close> loop. The upstream may answer the same request differently
  over time: \<open>get n\<close> is \<open>self._get\<close> at the \<open>n\<close>-th request of this walk.
\<close>

definition statuses_iter ::
  "(nat \<Rightarrow> getter) \<Rightarrow> (nat \<Rightarrow> string) \<Rightarrow> int \<Rightarrow> int option \<Rightarrow> bool \<Rightarrow>
   statuses_state \<Rightarrow> statuses_state flow" where
  "statuses_iter get clock ident created_after replies st =
     (let st1 = st\<lparr>requested := requested st @ [max_id st]\<rparr> in
      case get (length (requested st)) (HttpGet (Statuses ident (\<not> replies) (max_id st))) of
        Inl e \<Rightarrow> Break st1
      | Inr r \<Rightarrow>
          (case json r of
             None \<Rightarrow> Break st1
           | Some (Document j) \<Rightarrow> not_statuses j st1
           | Some (Timeline result) \<Rightarrow>
               if result = [] then Break st1
               else
                 let posts = sort_key pid result;
                     st2 = st1\<lparr>max_id := Some (pid (hd posts)),
                               fetched := fetched st1 @ [posts]\<rparr>
                 in
                   if too_old created_after (date_of (last posts)) then Break st2
                   else
                     Continue (st2\<lparr>
                       all_posts := for_posts clock created_after (ticks st2) posts (all_posts st2),
                       ticks := ticks st2 + length posts,
                       segments := segments st2 @
                         [for_posts clock created_after (ticks st2) posts []]\<rparr>)))"

datatype exit = Returned | Raised error | OutOfFuel

text \<open>
  The loop has no bound of its own (an upstream that keeps answering keeps it running), so
  it runs on fuel, and hands back the state it reached in every case.
\<close>

fun statuses_loop ::
  "(nat \<Rightarrow> getter) \<Rightarrow> (nat \<Rightarrow> string) \<Rightarrow> int \<Rightarrow> int option \<Rightarrow> bool \<Rightarrow> nat \<Rightarrow>
   statuses_state \<Rightarrow> exit \<times> statuses_state" where
  "statuses_loop get clock ident created_after replies 0 st = (OutOfFuel, st)"
| "statuses_loop get clock ident created_after replies (Suc n) st =
     (case statuses_iter get clock ident created_after replies st of
        Continue st' \<Rightarrow> statuses_loop get clock ident created_after replies n st'
      | Break st' \<Rightarrow> (Returned, st')
      | Raise e st' \<Rightarrow> (Raised e, st'))"

definition statuses_init :: statuses_state where
  "statuses_init =
     \<lparr>max_id = None, all_posts = [], ticks = 0, requested = [], fetched = [], segments = []\<rparr>"

definition statuses_run ::
  "(nat \<Rightarrow> getter) \<Rightarrow> (nat \<Rightarrow> string) \<Rightarrow> int \<Rightarrow> int option \<Rightarrow> bool \<Rightarrow> nat \<Rightarrow>
   exit \<times> statuses_state" where
  "statuses_run get clock ident created_after replies fuel =
     statuses_loop get clock ident created_after replies fuel statuses_init"

definition pull_statuses ::
  "(nat \<Rightarrow> getter) \<Rightarrow> (nat \<Rightarrow> string) \<Rightarrow> int \<Rightarrow> int option \<Rightarrow> bool \<Rightarrow> nat \<Rightarrow>
   (error + post list) option" where
  "pull_statuses get clock ident created_after replies fuel =
     (case statuses_run get clock ident created_after replies fuel of
        (Returned, st) \<Rightarrow> Some (Inr (all_posts st))
      | (Raised e, st) \<Rightarrow> Some (Inl e)
      | (OutOfFuel, st) \<Rightarrow> None)"

section \<open>Walking an identifier range\<close>

text \<open>
  The commands \<open>posts\<close> and \<open>groups\<close> keep a list \<open>f\<close> of futures; a future is
  identified by the ID it was submitted for. \<open>remaining\<close> is the range iterator;
  \<open>submitted\<close> and \<open>completed\<close> record the IDs handed to the executor and the IDs whose
  result the loop has read, in that order. The tasks are taken to return: a task that
  raises ends the walk, since \<open>result\<close> raises its exception again.
\<close>

record walk_state =
  in_flight :: "int list"
  remaining :: "int list"
  submitted :: "int list"
  completed :: "int list"

text \<open>
  \<open>await_any\<close> returns the futures that are done when \<open>futures.wait\<close> wakes up with
  \<open>FIRST_COMPLETED\<close>: at least one, each of them in \<open>f\<close>, in the iteration order of the
  set. Which ones is up to the thread pool: a scheduler chooses them from the list in
  flight (a list never comes back in one walk, so the choice may depend on nothing else).
\<close>

type_synonym scheduler = "int list \<Rightarrow> int list"

definition valid_scheduler :: "scheduler \<Rightarrow> bool" where
  "valid_scheduler pick =
     (\<forall>f. f \<noteq> [] \<longrightarrow> pick f \<noteq> [] \<and> set (pick f) \<subseteq> set f \<and> distinct (pick f))"

text \<open>
  The initial work: \<open>islice(ids, client.threads * 2)\<close> of \<open>iter(range(first, last + 1))\<close>
  (\<open>workers\<close> is \<open>client.threads\<close>, \<open>final\<close> is \<open>last\<close>).
\<close>

definition submit_initial :: "int \<Rightarrow> int \<Rightarrow> int \<Rightarrow> walk_state" where
  "submit_initial workers first final =
     (let ids = [first..final]; n = nat (workers * 2) in
      \<lparr>in_flight = take n ids, remaining = drop n ids,
       submitted = take n ids, completed = []\<rparr>)"

text \<open>
  \<open>await_any(f)\<close> with \<open>pop=True\<close>, followed by the loop that reads the results.
\<close>

definition await_any :: "scheduler \<Rightarrow> walk_state \<Rightarrow> int list \<times> walk_state" where
  "await_any pick st =
     (let done = pick (in_flight st) in
      (done, st\<lparr>in_flight := fold remove1 done (in_flight st),
                completed := completed st @ done\<rparr>))"

text \<open>
  The loop of \<open>posts\<close>: for every future that is done, \<open>f.append(ex.submit(..., next(users),
  ...))\<close>, until \<open>StopIteration\<close>.
\<close>

partial_function (option) posts_loop :: "scheduler \<Rightarrow> walk_state \<Rightarrow> walk_state option" where
  "posts_loop pick st =
     (if in_flight st = [] then Some st
      else
        (case await_any pick st of
           (done, st1) \<Rightarrow>
             posts_loop pick
               (st1\<lparr>in_flight := in_flight st1 @ take (length done) (remaining st1),
                    remaining := drop (length done) (remaining st1),
                    submitted := submitted st1 @ take (length done) (remaining st1)\<rparr>)))"

text \<open>
  \<open>ThreadPoolExecutor(max_workers=client.threads)\<close> raises \<open>ValueError\<close> unless
  \<open>threads > 0\<close>. The result is the exception that ended the walk, if any, and the state.
\<close>

definition posts_walk ::
  "scheduler \<Rightarrow> int \<Rightarrow> int \<Rightarrow> int \<Rightarrow> (error option \<times> walk_state) option" where
  "posts_walk pick workers first final =
     (if workers \<le> 0 then
        Some (Some ValueError,
              \<lparr>in_flight = [], remaining = [first..final], submitted = [], completed = []\<rparr>)
      else map_option (Pair None) (posts_loop pick (submit_initial workers first final)))"

text \<open>
  The loop of \<open>groups\<close> schedules more work with \<open>futures.append(...)\<close>, where \<open>futures\<close> is
  the module \<open>concurrent.futures\<close>: the attribute lookup raises \<open>AttributeError\<close> before
  \<open>next(groups)\<close> is evaluated, in the first turn of \<open>for _ in range(len(done))\<close>, and only
  \<open>StopIteration\<close> is caught.
\<close>

partial_function (option) groups_loop ::
  "scheduler \<Rightarrow> walk_state \<Rightarrow> (error option \<times> walk_state) option" where
  "groups_loop pick st =
     (if in_flight st = [] then Some (None, st)
      else
        (case await_any pick st of
           (done, st1) \<Rightarrow>
             if 0 < length done then Some (Some AttributeError, st1)
             else groups_loop pick st1))"

definition groups_walk ::
  "scheduler \<Rightarrow> int \<Rightarrow> int \<Rightarrow> int \<Rightarrow> (error option \<times> walk_state) option" where
  "groups_walk pick workers first final =
     (if workers \<le> 0 then
        Some (Some ValueError,
              \<lparr>in_flight = [], remaining = [first..final], submitted = [], completed = []\<rparr>)
      else groups_loop pick (submit_initial workers first final))"

section \<open>The session\<close>

text \<open>
  The client object, and the requests it has sent and the refreshes it has started so far.
  \<open>sess_cookie = None\<close> is Python's \<open>None\<close>.
\<close>

record client =
  username :: string
  password :: string
  threads :: int
  requests_since_refresh :: nat
  sess_cookie :: "(string \<times> string) list option"
  sent :: "request list"
  refreshes :: nat


text \<open>
  The network: the answer to a request, given the requests sent before it. \<open>None\<close> is an
  exception of the requests library (connection failure, timeout, retries exhausted on
  413, 429, 503, 403 or 500).
\<close>

type_synonym net = "request list \<Rightarrow> request \<Rightarrow> response option"

text \<open>\<open>raise_for_status\<close> raises \<open>HTTPError\<close> for these.\<close>

definition http_error :: "nat \<Rightarrow> bool" where
  "http_error code = (400 \<le> code \<and> code < 600)"

text \<open>
  \<open>login_page.find("meta", attrs={"name": "csrf-token"})\<close>; a body that is no sign-in page
  has no such tag.
\<close>

definition find_csrf :: "body \<Rightarrow> string option option" where
  "find_csrf b = (case b of Html m \<Rightarrow> m | _ \<Rightarrow> None)"

text \<open>
  \<open>_get\<close> with \<open>skip_sess_refresh=True\<close>: the request alone. The rate limit only delays it.
\<close>

definition get_exempt :: "net \<Rightarrow> request \<Rightarrow> client \<Rightarrow> (error + response) \<times> client" where
  "get_exempt net rq c =
     (case net (sent c) rq of
        None \<Rightarrow> (Inl RequestException, c\<lparr>sent := sent c @ [rq]\<rparr>)
      | Some r \<Rightarrow> (Inr r, c\<lparr>sent := sent c @ [rq]\<rparr>))"

text \<open>
  \<open>cookies.get(name)\<close> on the cookie jar of a response, which holds the name and the value
  of every cookie; cookies of different domains or paths may share a name. The jar raises
  \<open>CookieConflictError\<close> when more than one cookie has the name, and gives \<open>None\<close> when
  none has it or when the value is empty.
\<close>

definition cookie_get :: "(string \<times> string) list \<Rightarrow> string \<Rightarrow> error + string option" where
  "cookie_get jar name =
     (case filter (\<lambda>c. fst c = name) jar of
        [] \<Rightarrow> Inr None
      | [c] \<Rightarrow> if snd c = [] then Inr None else Inr (Some (snd c))
      | _ \<Rightarrow> Inl CookieConflictError)"

text \<open>
  \<open>get_sess_cookie\<close>, always called with the client's own user name and password. Only
  \<open>HTTPError\<close> is caught. Subscripting the result of \<open>find\<close> raises \<open>TypeError\<close> when there
  is no tag and \<open>KeyError\<close> when the tag has no \<open>content\<close>.
\<close>

definition get_sess_cookie ::
  "net \<Rightarrow> client \<Rightarrow> (error + (string \<times> string) list option) \<times> client" where
  "get_sess_cookie net c =
     (case get_exempt net (HttpGet SignIn) c of
        (Inl e, c1) \<Rightarrow> (Inl e, c1)
      | (Inr login_req, c1) \<Rightarrow>
          if http_error (status login_req) then (Inr None, c1)
          else
            (case find_csrf (body login_req) of
               None \<Rightarrow> (Inl TypeError, c1)
             | Some None \<Rightarrow> (Inl KeyError, c1)
             | Some (Some csrf) \<Rightarrow>
                 if csrf = [] then (Inr None, c1)
                 else
                   let payload = [(''user[email]'', username c1),
                                  (''user[password]'', password c1),
                                  (''authenticity_token'', csrf)];
                       c2 = c1\<lparr>sent := sent c1 @ [HttpPost SignIn payload]\<rparr>
                   in
                     (case net (sent c1) (HttpPost SignIn payload) of
                        None \<Rightarrow> (Inl RequestException, c2)
                      | Some sess_req \<Rightarrow>
                          if http_error (status sess_req) then (Inr None, c2)
                          else
                            (case cookie_get (cookies sess_req) ''_session_id'' of
                               Inl e \<Rightarrow> (Inl e, c2)
                             | Inr None \<Rightarrow> (Inl ValueError, c2)
                             | Inr (Some v) \<Rightarrow> (Inr (Some (cookies sess_req)), c2)))))"



section \<open>Properties of the pagination loop and of the upstream\<close>

text \<open>
  The upstream the pagination assumes: a request with a \<open>max_id\<close> is answered with posts
  below it only, and every page lists its posts in descending order of their identifiers.
\<close>

definition below_cursor :: "(nat \<Rightarrow> getter) \<Rightarrow> int \<Rightarrow> bool \<Rightarrow> bool" where
  "below_cursor get ident replies \<longleftrightarrow>
     (\<forall>n c r ps. get n (HttpGet (Statuses ident (\<not> replies) (Some c))) = Inr r \<longrightarrow>
        json r = Some (Timeline ps) \<longrightarrow> (\<forall>p\<in>set ps. pid p < c))"

definition descending_pages :: "(nat \<Rightarrow> getter) \<Rightarrow> int \<Rightarrow> bool \<Rightarrow> bool" where
  "descending_pages get ident replies \<longleftrightarrow>
     (\<forall>n c r ps. get n (HttpGet (Statuses ident (\<not> replies) c)) = Inr r \<longrightarrow>
        json r = Some (Timeline ps) \<longrightarrow> sorted_wrt (>) (map pid ps))"

text \<open>
  What the loop keeps: \<open>all_posts\<close> is made of the segments, each in ascending order and
  taken from the pages received; the cursor, once set, is the identifier of a post
  received and no post received is below it.
\<close>

definition segments_inv :: "statuses_state \<Rightarrow> bool" where
  "segments_inv st \<longleftrightarrow>
     all_posts st = concat (segments st) \<and>
     (\<forall>s\<in>set (segments st). sorted (map pid s)) \<and>
     (\<forall>s\<in>set (segments st). pid ` set s \<subseteq> (\<Union>pg\<in>set (fetched st). pid ` set pg))"

definition cursor_inv :: "statuses_state \<Rightarrow> bool" where
  "cursor_inv st \<longleftrightarrow>
     (max_id st = None \<longrightarrow> fetched st = []) \<and>
     (\<forall>m. max_id st = Some m \<longrightarrow>
        (\<exists>pg\<in>set (fetched st). \<exists>p\<in>set pg. pid p = m) \<and>
        (\<forall>pg\<in>set (fetched st). \<forall>p\<in>set pg. m \<le> pid p))"

section \<open>Concrete upstreams\<close>


definition demo_client :: client where
  "demo_client =
     \<lparr>username = ''user'', password = ''secret'', threads = 25, requests_since_refresh = 0,
      sess_cookie = None, sent = [], refreshes = 0\<rparr>"

text \<open>
  Networks for the login: the sign-in page with a given result of the search for the CSRF
  tag, and a login response with given cookies.
\<close>

definition login_net :: "string option option \<Rightarrow> (string \<times> string) list \<Rightarrow> net" where
  "login_net meta cks history rq =
     (case rq of
        HttpGet e \<Rightarrow> Some \<lparr>status = 200, body = Html meta, cookies = []\<rparr>
      | HttpPost e form \<Rightarrow> Some \<lparr>status = 200, body = Undecodable, cookies = cks\<rparr>)"

text \<open>
  A network that serves the sign-in page with a token and rejects the login: status 401 and
  no cookie.
\<close>

definition rejecting_net :: net where
  "rejecting_net history rq =
     (case rq of
        HttpGet e \<Rightarrow> Some \<lparr>status = 200, body = Html (Some (Some ''token'')), cookies = []\<rparr>
      | HttpPost e form \<Rightarrow> Some \<lparr>status = 401, body = Undecodable, cookies = []\<rparr>)"

text \<open>
  An upstream on which the accounts up to \<open>K\<close> exist and no other; a group request fails
  for an identifier below 1, answers with a body that is not JSON for 1, and with a record
  otherwise.
\<close>

definition account_record :: "int \<Rightarrow> dict" where
  "account_record i =
     [(''id'', JNum i), (''username'', JStr ''someone''), (''created_at'', JStr ''then'')]"

definition upstream_upto :: "int \<Rightarrow> getter" where
  "upstream_upto K rq =
     (case rq of
        HttpGet (Account i) \<Rightarrow>
          if i \<le> K then
            Inr \<lparr>status = 200, body = JsonValue (JObj (account_record i)), cookies = []\<rparr>
          else
            Inr \<lparr>status = 404,
                 body = JsonValue (JObj [(''error'', JStr ''Record not found'')]),
                 cookies = []\<rparr>
      | HttpGet (Group i) \<Rightarrow>
          if i < 1 then Inl RequestException
          else if i = 1 then Inr \<lparr>status = 200, body = Undecodable, cookies = []\<rparr>
          else
            Inr \<lparr>status = 200,
                 body = JsonValue (JObj [(''id'', JNum i), (''title'', JStr ''group'')]),
                 cookies = []\<rparr>
      | _ \<Rightarrow> Inl RequestException)"

text \<open>The parser on the one creation time that \<open>account_record\<close> uses.\<close>

definition demo_parse :: "string \<Rightarrow> int option" where
  "demo_parse s = (if s = ''then'' then Some 1000 else None)"

text \<open>
  A timeline served in pages of a given size: the newest posts first, below the cursor
  when there is one. \<open>posts\<close> is the whole timeline, newest first.
\<close>

definition paged_upstream :: "nat \<Rightarrow> post list \<Rightarrow> nat \<Rightarrow> getter" where
  "paged_upstream k posts n rq =
     (case rq of
        HttpGet (Statuses i x c) \<Rightarrow>
          Inr \<lparr>status = 200,
               body = JsonStatuses
                 (take k
                   (filter (\<lambda>p. case c of None \<Rightarrow> True | Some m \<Rightarrow> pid p < m) posts)),
               cookies = []\<rparr>
      | _ \<Rightarrow> Inl RequestException)"

text \<open>A post with a given identifier, created at the start of a given day.\<close>

definition post_on :: "int \<Rightarrow> int \<Rightarrow> post" where
  "post_on i d = \<lparr>pid = i, created_at = d * usec_per_day, pulled = None\<rparr>"

definition demo_clock :: "nat \<Rightarrow> string" where
  "demo_clock t = ''now''"

definition demo_timeline :: "post list" where
  "demo_timeline = [post_on 4 11, post_on 3 9, post_on 2 8, post_on 1 8]"

definition demo_short_timeline :: "post list" where
  "demo_short_timeline = [post_on 3 5, post_on 2 4, post_on 1 3]"

section \<open>Facts about the pagination loop\<close>

lemma for_posts_acc:
  "for_posts clock ca t ps acc = acc @ for_posts clock ca t ps []"
proof (induction ps arbitrary: t acc)
  case Nil
  show ?case by simp
next
  case (Cons p ps)
  show ?case
    using Cons.IH [of "Suc t" acc] Cons.IH [of "Suc t" "acc @ [p\<lparr>pulled := Some (clock t)\<rparr>]"]
          Cons.IH [of "Suc t" "[p\<lparr>pulled := Some (clock t)\<rparr>]"]
    by (simp add: Let_def)
qed

lemma date_of_stamp [simp]: "date_of (p\<lparr>pulled := x\<rparr>) = date_of p"
  by (simp add: date_of_def)

lemma for_posts_recent:
  "p \<in> set (for_posts clock ca t ps []) \<Longrightarrow> \<not> too_old ca (date_of p)"
proof (induction ps arbitrary: t)
  case Nil
  then show ?case by simp
next
  case (Cons q qs)
  then show ?case
    using for_posts_acc [of clock ca "Suc t" qs "[q\<lparr>pulled := Some (clock t)\<rparr>]"]
    by (auto simp: Let_def split: if_splits)
qed

lemma for_posts_ids:
  "map pid (for_posts clock ca t ps []) = map pid (filter (\<lambda>p. \<not> too_old ca (date_of p)) ps)"
proof (induction ps arbitrary: t)
  case Nil
  show ?case by simp
next
  case (Cons q qs)
  show ?case
    using Cons.IH [of "Suc t"]
          for_posts_acc [of clock ca "Suc t" qs "[q\<lparr>pulled := Some (clock t)\<rparr>]"]
    by (simp add: Let_def)
qed

lemma sorted_map_filter: "sorted (map f xs) \<Longrightarrow> sorted (map f (filter P xs))"
  by (induction xs) auto

lemma for_posts_sorted:
  "sorted (map pid ps) \<Longrightarrow> sorted (map pid (for_posts clock ca t ps []))"
  by (simp add: for_posts_ids sorted_map_filter)

lemma for_posts_subset:
  "pid ` set (for_posts clock ca t ps []) \<subseteq> pid ` set ps"
proof -
  have "set (map pid (for_posts clock ca t ps [])) \<subseteq> set (map pid ps)"
    unfolding for_posts_ids by auto
  then show ?thesis by simp
qed

text \<open>A property that every turn of the loop keeps holds in the state the loop ends in.\<close>

lemma statuses_loop_invariant:
  assumes step: "\<And>st fl st' e. P st \<Longrightarrow> statuses_iter get clock ident ca replies st = fl \<Longrightarrow>
                   fl = Continue st' \<or> fl = Break st' \<or> fl = Raise e st' \<Longrightarrow> P st'"
  shows "P st \<Longrightarrow> P (snd (statuses_loop get clock ident ca replies n st))"
proof (induction n arbitrary: st)
  case 0
  then show ?case by simp
next
  case (Suc n)
  show ?case
  proof (cases "statuses_iter get clock ident ca replies st")
    case (Continue st')
    then have "P st'" using step [OF Suc.prems, of _ st'] by blast
    then show ?thesis using Continue Suc.IH by simp
  next
    case (Break st')
    then have "P st'" using step [OF Suc.prems, of _ st'] by blast
    then show ?thesis using Break by simp
  next
    case (Raise e st')
    then have "P st'" using step [OF Suc.prems, of _ st' e] by blast
    then show ?thesis using Raise by simp
  qed
qed

lemma not_statuses_state:
  "not_statuses j st = fl \<Longrightarrow> fl = Continue st' \<or> fl = Break st' \<or> fl = Raise e st' \<Longrightarrow> st' = st"
  by (auto simp: not_statuses_def split: jval.splits if_splits option.splits)

text \<open>What one turn does to the state: nothing but the request, or a page.\<close>

lemma statuses_iter_cases:
  assumes "statuses_iter get clock ident ca replies st = fl"
      and "fl = Continue st' \<or> fl = Break st' \<or> fl = Raise e st'"
  shows "st' = st\<lparr>requested := requested st @ [max_id st]\<rparr> \<or>
         (\<exists>r result.
            get (length (requested st)) (HttpGet (Statuses ident (\<not> replies) (max_id st))) = Inr r \<and>
            json r = Some (Timeline result) \<and> result \<noteq> [] \<and>
            (st' = st\<lparr>requested := requested st @ [max_id st],
                       max_id := Some (pid (hd (sort_key pid result))),
                       fetched := fetched st @ [sort_key pid result]\<rparr> \<and>
             fl = Break st' \<and> too_old ca (date_of (last (sort_key pid result)))
             \<or>
             st' = st\<lparr>requested := requested st @ [max_id st],
                       max_id := Some (pid (hd (sort_key pid result))),
                       fetched := fetched st @ [sort_key pid result],
                       all_posts := all_posts st @
                          for_posts clock ca (ticks st) (sort_key pid result) [],
                       ticks := ticks st + length result,
                       segments := segments st @
                          [for_posts clock ca (ticks st) (sort_key pid result) []]\<rparr> \<and>
             fl = Continue st' \<and> \<not> too_old ca (date_of (last (sort_key pid result)))))"
proof (cases "get (length (requested st)) (HttpGet (Statuses ident (\<not> replies) (max_id st)))")
  case (Inl e')
  then show ?thesis using assms by (auto simp: statuses_iter_def Let_def)
next
  case (Inr r)
  show ?thesis
  proof (cases "json r")
    case None
    then show ?thesis using assms Inr by (auto simp: statuses_iter_def Let_def simp del: json.simps)
  next
    case (Some d)
    show ?thesis
    proof (cases d)
      case (Document j)
      then have "not_statuses j (st\<lparr>requested := requested st @ [max_id st]\<rparr>) = fl"
        using assms(1) Inr Some by (simp add: statuses_iter_def Let_def del: json.simps)
      from not_statuses_state [OF this assms(2)] show ?thesis by simp
    next
      case (Timeline result)
      show ?thesis
      proof (cases "result = []")
        case True
        then show ?thesis using assms Inr Some Timeline
          by (auto simp: statuses_iter_def Let_def simp del: json.simps)
      next
        case False
        have acc: "for_posts clock ca (ticks st) (sort_key pid result) (all_posts st) =
                   all_posts st @ for_posts clock ca (ticks st) (sort_key pid result) []"
          by (rule for_posts_acc)
        show ?thesis
          using assms Inr Some Timeline False acc
          by (auto simp: statuses_iter_def Let_def simp del: json.simps split: if_splits)
      qed
    qed
  qed
qed

lemma all_posts_recent:
  assumes "\<forall>p\<in>set (all_posts st). \<not> too_old ca (date_of p)"
  shows "\<forall>p\<in>set (all_posts (snd (statuses_loop get clock ident ca replies n st))).
           \<not> too_old ca (date_of p)"
proof (rule statuses_loop_invariant
         [where P = "\<lambda>st. \<forall>p\<in>set (all_posts st). \<not> too_old ca (date_of p)"])
  show "\<forall>p\<in>set (all_posts st). \<not> too_old ca (date_of p)" by (rule assms)
next
  fix s fl s' e
  assume P: "\<forall>p\<in>set (all_posts s). \<not> too_old ca (date_of p)"
     and it: "statuses_iter get clock ident ca replies s = fl"
     and fl: "fl = Continue s' \<or> fl = Break s' \<or> fl = Raise e s'"
  from statuses_iter_cases [OF it fl] P
  show "\<forall>p\<in>set (all_posts s'). \<not> too_old ca (date_of p)"
    by (auto dest: for_posts_recent)
qed

lemma page_too_old_stops:
  assumes "get (length (requested st)) (HttpGet (Statuses ident (\<not> replies) (max_id st))) = Inr r"
      and "json r = Some (Timeline result)" and "result \<noteq> []"
      and "too_old ca (date_of (last (sort_key pid result)))"
  shows "statuses_loop get clock ident ca replies (Suc n) st =
           (Returned, st\<lparr>requested := requested st @ [max_id st],
                          max_id := Some (pid (hd (sort_key pid result))),
                          fetched := fetched st @ [sort_key pid result]\<rparr>)"
  using assms by (simp add: statuses_iter_def Let_def del: json.simps)

lemma page_recent_continues:
  assumes "get (length (requested st)) (HttpGet (Statuses ident (\<not> replies) (max_id st))) = Inr r"
      and "json r = Some (Timeline result)" and "result \<noteq> []"
      and "\<not> too_old ca (date_of (last (sort_key pid result)))"
  shows "statuses_loop get clock ident ca replies (Suc n) st =
           statuses_loop get clock ident ca replies n
             (st\<lparr>requested := requested st @ [max_id st],
                 max_id := Some (pid (hd (sort_key pid result))),
                 fetched := fetched st @ [sort_key pid result],
                 all_posts := all_posts st @
                    for_posts clock ca (ticks st) (sort_key pid result) [],
                 ticks := ticks st + length result,
                 segments := segments st @
                    [for_posts clock ca (ticks st) (sort_key pid result) []]\<rparr>)"
  using assms for_posts_acc [of clock ca "ticks st" "sort_key pid result" "all_posts st"]
  by (simp add: statuses_iter_def Let_def del: json.simps)

text \<open>The walk over \<open>demo_timeline\<close> in pages of two, with the tenth day as the cutoff.\<close>

lemma pid_post_on [simp]: "pid (post_on i d) = i"
  by (simp add: post_on_def)

lemma date_of_post_on [simp]: "date_of (post_on i d) = d"
  by (simp add: post_on_def date_of_def usec_per_day_def)

lemma demo_page_1:
  "paged_upstream 2 demo_timeline n (HttpGet (Statuses 7 True None)) =
     Inr \<lparr>status = 200, body = JsonStatuses [post_on 4 11, post_on 3 9], cookies = []\<rparr>"
  by (simp add: paged_upstream_def demo_timeline_def)

lemma demo_page_2:
  "paged_upstream 2 demo_timeline n (HttpGet (Statuses 7 True (Some 3))) =
     Inr \<lparr>status = 200, body = JsonStatuses [post_on 2 8, post_on 1 8], cookies = []\<rparr>"
  by (simp add: paged_upstream_def demo_timeline_def)

lemma demo_run:
  "statuses_run (paged_upstream 2 demo_timeline) demo_clock 7 (Some 10) False 5 =
     (Returned,
      \<lparr>max_id = Some 1, all_posts = [(post_on 4 11)\<lparr>pulled := Some ''now''\<rparr>],
       ticks = 2, requested = [None, Some 3],
       fetched = [[post_on 3 9, post_on 4 11], [post_on 1 8, post_on 2 8]],
       segments = [[(post_on 4 11)\<lparr>pulled := Some ''now''\<rparr>]]\<rparr>)"
proof -
  let ?get = "paged_upstream 2 demo_timeline"
  let ?r1 = "\<lparr>status = 200, body = JsonStatuses [post_on 4 11, post_on 3 9], cookies = []\<rparr>"
  let ?r2 = "\<lparr>status = 200, body = JsonStatuses [post_on 2 8, post_on 1 8], cookies = []\<rparr>"
  let ?st1 = "\<lparr>max_id = Some 3, all_posts = [(post_on 4 11)\<lparr>pulled := Some ''now''\<rparr>],
       ticks = Suc (Suc 0), requested = [None],
       fetched = [[post_on 3 9, post_on 4 11]],
       segments = [[(post_on 4 11)\<lparr>pulled := Some ''now''\<rparr>]]\<rparr>"
  have g1: "?get (length (requested statuses_init))
              (HttpGet (Statuses 7 (\<not> False) (max_id statuses_init))) = Inr ?r1"
    by (simp add: statuses_init_def demo_page_1)
  have j1: "json ?r1 = Some (Timeline [post_on 4 11, post_on 3 9])" by simp
  have c1: "\<not> too_old (Some 10) (date_of (last (sort_key pid [post_on 4 11, post_on 3 9])))"
    by (simp add: too_old_def)
  have 1: "statuses_loop ?get demo_clock 7 (Some 10) False (Suc 4) statuses_init =
           statuses_loop ?get demo_clock 7 (Some 10) False 4 ?st1"
    using page_recent_continues
            [where get = ?get and st = statuses_init and replies = False and clock = demo_clock
               and n = 4, OF g1 j1 _ c1]
    by (simp add: statuses_init_def too_old_def demo_clock_def)
  have g2: "?get (length (requested ?st1)) (HttpGet (Statuses 7 (\<not> False) (max_id ?st1))) = Inr ?r2"
    by (simp add: demo_page_2)
  have j2: "json ?r2 = Some (Timeline [post_on 2 8, post_on 1 8])" by simp
  have c2: "too_old (Some 10) (date_of (last (sort_key pid [post_on 2 8, post_on 1 8])))"
    by (simp add: too_old_def)
  have 2: "statuses_loop ?get demo_clock 7 (Some 10) False (Suc 3) ?st1 =
           (Returned, ?st1\<lparr>requested := [None, Some 3], max_id := Some 1,
               fetched := [[post_on 3 9, post_on 4 11], [post_on 1 8, post_on 2 8]]\<rparr>)"
    using page_too_old_stops
            [where get = ?get and st = ?st1 and replies = False and clock = demo_clock
               and n = 3, OF g2 j2 _ c2]
    by simp
  have n5: "(5::nat) = Suc 4" and n4: "(4::nat) = Suc 3" by simp_all
  show ?thesis
    unfolding statuses_run_def
    by (subst n5, subst 1, subst n4, subst 2) simp
qed

text \<open>The invariants of the loop.\<close>

lemma hd_sort_key_least:
  assumes "p \<in> set xs"
  shows "pid (hd (sort_key pid xs)) \<le> pid p"
proof -
  have s: "sorted (map pid (sort_key pid xs))" by (rule sorted_sort_key)
  have m: "p \<in> set (sort_key pid xs)" using assms by simp
  then obtain y ys where e: "sort_key pid xs = y # ys" by (cases "sort_key pid xs") auto
  from s e have "\<forall>z\<in>set ys. pid y \<le> pid z" by simp
  with m e show ?thesis by auto
qed

lemma hd_sort_key_mem: "xs \<noteq> [] \<Longrightarrow> hd (sort_key pid xs) \<in> set xs"
proof -
  assume "xs \<noteq> []"
  then have "sort_key pid xs \<noteq> []" by (metis length_0_conv length_sort)
  then have "hd (sort_key pid xs) \<in> set (sort_key pid xs)" by (rule hd_in_set)
  then show ?thesis by simp
qed

lemma descending_distinct: "sorted_wrt (>) (xs :: int list) \<Longrightarrow> distinct xs"
  by (induction xs) auto

lemma distinct_sort_key_ids:
  "distinct (map pid xs) \<Longrightarrow> distinct (map pid (sort_key pid xs))"
proof -
  have "mset (map pid (sort_key pid xs)) = mset (map pid xs)" by simp
  then show "distinct (map pid xs) \<Longrightarrow> distinct (map pid (sort_key pid xs))"
    using mset_eq_imp_distinct_iff by blast
qed

lemma segments_inv_step:
  assumes inv: "segments_inv st"
      and it: "statuses_iter get clock ident ca replies st = fl"
      and fl: "fl = Continue st' \<or> fl = Break st' \<or> fl = Raise e st'"
  shows "segments_inv st'"
proof -
  from statuses_iter_cases [OF it fl]
  consider (quiet) "st' = st\<lparr>requested := requested st @ [max_id st]\<rparr>"
    | (stop) result where
        "st' = st\<lparr>requested := requested st @ [max_id st],
                   max_id := Some (pid (hd (sort_key pid result))),
                   fetched := fetched st @ [sort_key pid result]\<rparr>"
    | (page) result where
        "st' = st\<lparr>requested := requested st @ [max_id st],
                   max_id := Some (pid (hd (sort_key pid result))),
                   fetched := fetched st @ [sort_key pid result],
                   all_posts := all_posts st @
                      for_posts clock ca (ticks st) (sort_key pid result) [],
                   ticks := ticks st + length result,
                   segments := segments st @
                      [for_posts clock ca (ticks st) (sort_key pid result) []]\<rparr>"
    by blast
  then show ?thesis
  proof cases
    case quiet
    with inv show ?thesis by (simp add: segments_inv_def)
  next
    case stop
    with inv show ?thesis by (fastforce simp: segments_inv_def)
  next
    case page
    let ?new = "for_posts clock ca (ticks st) (sort_key pid result) []"
    have s: "sorted (map pid ?new)"
      by (rule for_posts_sorted) (rule sorted_sort_key)
    have sub: "pid ` set ?new \<subseteq> pid ` set (sort_key pid result)"
      by (rule for_posts_subset)
    have 1: "all_posts st' = concat (segments st')" using inv page
      by (simp add: segments_inv_def)
    have 2: "\<forall>s\<in>set (segments st'). sorted (map pid s)" using inv page s
      by (auto simp: segments_inv_def)
    have 3: "\<forall>s\<in>set (segments st'). pid ` set s \<subseteq> (\<Union>pg\<in>set (fetched st'). pid ` set pg)"
    proof
      fix s assume "s \<in> set (segments st')"
      then have "s \<in> set (segments st) \<or> s = ?new" using page by auto
      then show "pid ` set s \<subseteq> (\<Union>pg\<in>set (fetched st'). pid ` set pg)"
      proof
        assume "s \<in> set (segments st)"
        then have "pid ` set s \<subseteq> (\<Union>pg\<in>set (fetched st). pid ` set pg)"
          using inv by (simp add: segments_inv_def)
        then show ?thesis using page by auto
      next
        assume "s = ?new"
        then show ?thesis using sub page by auto
      qed
    qed
    from 1 2 3 show ?thesis by (simp add: segments_inv_def)
  qed
qed

lemma segments_inv_loop:
  "segments_inv st \<Longrightarrow> segments_inv (snd (statuses_loop get clock ident ca replies n st))"
  by (rule statuses_loop_invariant [where P = segments_inv]) (rule segments_inv_step)

lemma statuses_iter_page:
  assumes it: "statuses_iter get clock ident ca replies st = fl"
      and fl: "fl = Continue st' \<or> fl = Break st' \<or> fl = Raise e st'"
      and ne: "st' \<noteq> st\<lparr>requested := requested st @ [max_id st]\<rparr>"
  obtains r result where
    "get (length (requested st)) (HttpGet (Statuses ident (\<not> replies) (max_id st))) = Inr r"
    "json r = Some (Timeline result)" "result \<noteq> []"
    "max_id st' = Some (pid (hd (sort_key pid result)))"
    "fetched st' = fetched st @ [sort_key pid result]"
    "segments st' = segments st \<or>
     segments st' = segments st @ [for_posts clock ca (ticks st) (sort_key pid result) []]"
proof -
  from statuses_iter_cases [OF it fl] ne
  obtain r result where
    g: "get (length (requested st)) (HttpGet (Statuses ident (\<not> replies) (max_id st))) = Inr r"
       "json r = Some (Timeline result)" "result \<noteq> []"
    and c: "st' = st\<lparr>requested := requested st @ [max_id st],
                       max_id := Some (pid (hd (sort_key pid result))),
                       fetched := fetched st @ [sort_key pid result]\<rparr> \<or>
            st' = st\<lparr>requested := requested st @ [max_id st],
                       max_id := Some (pid (hd (sort_key pid result))),
                       fetched := fetched st @ [sort_key pid result],
                       all_posts := all_posts st @
                          for_posts clock ca (ticks st) (sort_key pid result) [],
                       ticks := ticks st + length result,
                       segments := segments st @
                          [for_posts clock ca (ticks st) (sort_key pid result) []]\<rparr>"
    by blast
  from c have "max_id st' = Some (pid (hd (sort_key pid result)))"
              "fetched st' = fetched st @ [sort_key pid result]"
              "segments st' = segments st \<or>
               segments st' = segments st @ [for_posts clock ca (ticks st) (sort_key pid result) []]"
    by auto
  with g show thesis using that by blast
qed

text \<open>The new page lies below everything received before.\<close>

lemma page_below_received:
  assumes bc: "below_cursor get ident replies"
      and inv: "cursor_inv st"
      and g: "get (length (requested st)) (HttpGet (Statuses ident (\<not> replies) (max_id st))) = Inr r"
             "json r = Some (Timeline result)"
      and p: "p \<in> set result" and q: "q \<in> set pg" "pg \<in> set (fetched st)"
  shows "pid p < pid q"
proof (cases "max_id st")
  case None
  then have "fetched st = []" using inv by (simp add: cursor_inv_def)
  with q show ?thesis by simp
next
  case (Some m)
  have "pid p < m" using bc g p unfolding below_cursor_def Some by blast
  moreover have "m \<le> pid q" using inv Some q unfolding cursor_inv_def by blast
  ultimately show ?thesis by simp
qed

lemma cursor_inv_step:
  assumes bc: "below_cursor get ident replies"
      and inv: "cursor_inv st"
      and it: "statuses_iter get clock ident ca replies st = fl"
      and fl: "fl = Continue st' \<or> fl = Break st' \<or> fl = Raise e st'"
  shows "cursor_inv st'"
proof (cases "st' = st\<lparr>requested := requested st @ [max_id st]\<rparr>")
  case True
  with inv show ?thesis by (simp add: cursor_inv_def)
next
  case False
  from statuses_iter_page [OF it fl False] obtain r result where
    g: "get (length (requested st)) (HttpGet (Statuses ident (\<not> replies) (max_id st))) = Inr r"
       "json r = Some (Timeline result)" and ne: "result \<noteq> []"
    and m: "max_id st' = Some (pid (hd (sort_key pid result)))"
    and f: "fetched st' = fetched st @ [sort_key pid result]"
    by blast
  let ?m = "pid (hd (sort_key pid result))"
  have mem: "hd (sort_key pid result) \<in> set result" using ne by (rule hd_sort_key_mem)
  have a: "\<exists>pg\<in>set (fetched st'). \<exists>p\<in>set pg. pid p = ?m"
    using f mem by auto
  have b: "?m \<le> pid q" if "q \<in> set pg" "pg \<in> set (fetched st')" for q pg
  proof (cases "pg \<in> set (fetched st)")
    case True
    from page_below_received [OF bc inv g mem that(1) True] show ?thesis by simp
  next
    case False
    then have "pg = sort_key pid result" using that(2) f by simp
    then have "q \<in> set result" using that(1) by simp
    then show ?thesis by (rule hd_sort_key_least)
  qed
  show ?thesis unfolding cursor_inv_def using m a b by auto
qed

text \<open>Segments in descending order of each other.\<close>

lemma descending_segments_step:
  assumes bc: "below_cursor get ident replies"
      and inv: "cursor_inv st \<and> segments_inv st \<and>
                sorted_wrt (\<lambda>s t. \<forall>a\<in>set s. \<forall>b\<in>set t. pid b < pid a) (segments st)"
      and it: "statuses_iter get clock ident ca replies st = fl"
      and fl: "fl = Continue st' \<or> fl = Break st' \<or> fl = Raise e st'"
  shows "cursor_inv st' \<and> segments_inv st' \<and>
         sorted_wrt (\<lambda>s t. \<forall>a\<in>set s. \<forall>b\<in>set t. pid b < pid a) (segments st')"
proof -
  have c: "cursor_inv st'" using cursor_inv_step [OF bc _ it fl] inv by blast
  have s: "segments_inv st'" using segments_inv_step [OF _ it fl] inv by blast
  have "sorted_wrt (\<lambda>s t. \<forall>a\<in>set s. \<forall>b\<in>set t. pid b < pid a) (segments st')"
  proof (cases "segments st' = segments st")
    case True
    with inv show ?thesis by simp
  next
    case False
    then have "st' \<noteq> st\<lparr>requested := requested st @ [max_id st]\<rparr>" by auto
    from statuses_iter_page [OF it fl this] False obtain r result where
      g: "get (length (requested st)) (HttpGet (Statuses ident (\<not> replies) (max_id st))) = Inr r"
         "json r = Some (Timeline result)"
      and sg: "segments st' =
                 segments st @ [for_posts clock ca (ticks st) (sort_key pid result) []]"
      by blast
    let ?new = "for_posts clock ca (ticks st) (sort_key pid result) []"
    have below: "pid b < pid a" if "s \<in> set (segments st)" "a \<in> set s" "b \<in> set ?new" for s a b
    proof -
      have "pid a \<in> (\<Union>pg\<in>set (fetched st). pid ` set pg)"
        using inv that(1,2) unfolding segments_inv_def by blast
      then obtain pg q where q: "pg \<in> set (fetched st)" "q \<in> set pg" "pid q = pid a" by auto
      have "pid b \<in> pid ` set (sort_key pid result)"
        using for_posts_subset [of clock ca "ticks st" "sort_key pid result"] that(3) by blast
      then obtain p where p: "p \<in> set result" "pid p = pid b" by auto
      from page_below_received [OF bc _ g p(1) q(2) q(1)] inv p q show ?thesis by simp
    qed
    show ?thesis unfolding sg sorted_wrt_append using inv below by auto
  qed
  with c s show ?thesis by blast
qed

text \<open>No identifier is received twice.\<close>

lemma distinct_fetched_step:
  assumes bc: "below_cursor get ident replies"
      and dp: "descending_pages get ident replies"
      and inv: "cursor_inv st \<and> distinct (concat (map (map pid) (fetched st)))"
      and it: "statuses_iter get clock ident ca replies st = fl"
      and fl: "fl = Continue st' \<or> fl = Break st' \<or> fl = Raise e st'"
  shows "cursor_inv st' \<and> distinct (concat (map (map pid) (fetched st')))"
proof -
  have c: "cursor_inv st'" using cursor_inv_step [OF bc _ it fl] inv by blast
  have "distinct (concat (map (map pid) (fetched st')))"
  proof (cases "st' = st\<lparr>requested := requested st @ [max_id st]\<rparr>")
    case True
    with inv show ?thesis by simp
  next
    case False
    from statuses_iter_page [OF it fl False] obtain r result where
      g: "get (length (requested st)) (HttpGet (Statuses ident (\<not> replies) (max_id st))) = Inr r"
         "json r = Some (Timeline result)"
      and f: "fetched st' = fetched st @ [sort_key pid result]"
      by blast
    have "sorted_wrt (>) (map pid result)" using dp g unfolding descending_pages_def by blast
    then have d: "distinct (map pid (sort_key pid result))"
      by (intro distinct_sort_key_ids descending_distinct)
    have disj: "pid p \<noteq> pid q" if "p \<in> set result" "q \<in> set pg" "pg \<in> set (fetched st)" for p q pg
      using page_below_received [OF bc _ g that] inv by auto
    have "set (concat (map (map pid) (fetched st))) \<inter> set (map pid (sort_key pid result)) = {}"
      using disj by fastforce
    then show ?thesis unfolding f using inv d by simp
  qed
  with c show ?thesis by blast
qed

text \<open>More walks: without a cutoff, and over a timeline of one page.\<close>

lemma page_empty_stops:
  assumes "get (length (requested st)) (HttpGet (Statuses ident (\<not> replies) (max_id st))) = Inr r"
      and "json r = Some (Timeline [])"
  shows "statuses_loop get clock ident ca replies (Suc n) st =
           (Returned, st\<lparr>requested := requested st @ [max_id st]\<rparr>)"
  using assms by (simp add: statuses_iter_def Let_def del: json.simps)

lemma paged_upstream_below_cursor: "below_cursor (paged_upstream k posts) ident replies"
  unfolding below_cursor_def paged_upstream_def
  by (auto dest: in_set_takeD)

lemma paged_upstream_descending:
  assumes "sorted_wrt (>) (map pid posts)"
  shows "descending_pages (paged_upstream k posts) ident replies"
proof -
  have "sorted_wrt (>) (map pid (take k (filter P posts)))" for P
    using assms unfolding sorted_wrt_map
    by (intro sorted_wrt_take sorted_wrt_filter)
  then show ?thesis
    unfolding descending_pages_def paged_upstream_def by auto
qed

lemma demo_page_3:
  "paged_upstream 2 demo_timeline n (HttpGet (Statuses 7 True (Some 1))) =
     Inr \<lparr>status = 200, body = JsonStatuses [], cookies = []\<rparr>"
  by (simp add: paged_upstream_def demo_timeline_def)

lemma demo_run_all:
  "statuses_run (paged_upstream 2 demo_timeline) demo_clock 7 None False 5 =
     (Returned,
      \<lparr>max_id = Some 1,
       all_posts = [(post_on 3 9)\<lparr>pulled := Some ''now''\<rparr>, (post_on 4 11)\<lparr>pulled := Some ''now''\<rparr>,
                    (post_on 1 8)\<lparr>pulled := Some ''now''\<rparr>, (post_on 2 8)\<lparr>pulled := Some ''now''\<rparr>],
       ticks = 4, requested = [None, Some 3, Some 1],
       fetched = [[post_on 3 9, post_on 4 11], [post_on 1 8, post_on 2 8]],
       segments = [[(post_on 3 9)\<lparr>pulled := Some ''now''\<rparr>, (post_on 4 11)\<lparr>pulled := Some ''now''\<rparr>],
                   [(post_on 1 8)\<lparr>pulled := Some ''now''\<rparr>, (post_on 2 8)\<lparr>pulled := Some ''now''\<rparr>]]\<rparr>)"
proof -
  let ?get = "paged_upstream 2 demo_timeline"
  let ?r1 = "\<lparr>status = 200, body = JsonStatuses [post_on 4 11, post_on 3 9], cookies = []\<rparr>"
  let ?r2 = "\<lparr>status = 200, body = JsonStatuses [post_on 2 8, post_on 1 8], cookies = []\<rparr>"
  let ?r3 = "\<lparr>status = 200, body = JsonStatuses [], cookies = []\<rparr>"
  let ?s1 = "[(post_on 3 9)\<lparr>pulled := Some ''now''\<rparr>, (post_on 4 11)\<lparr>pulled := Some ''now''\<rparr>]"
  let ?s2 = "[(post_on 1 8)\<lparr>pulled := Some ''now''\<rparr>, (post_on 2 8)\<lparr>pulled := Some ''now''\<rparr>]"
  let ?st1 = "\<lparr>max_id = Some 3, all_posts = ?s1, ticks = Suc (Suc 0), requested = [None],
       fetched = [[post_on 3 9, post_on 4 11]], segments = [?s1]\<rparr>"
  let ?st2 = "\<lparr>max_id = Some 1, all_posts = ?s1 @ ?s2, ticks = Suc (Suc (Suc (Suc 0))),
       requested = [None, Some 3],
       fetched = [[post_on 3 9, post_on 4 11], [post_on 1 8, post_on 2 8]],
       segments = [?s1, ?s2]\<rparr>"
  have g1: "?get (length (requested statuses_init))
              (HttpGet (Statuses 7 (\<not> False) (max_id statuses_init))) = Inr ?r1"
    by (simp add: statuses_init_def demo_page_1)
  have j1: "json ?r1 = Some (Timeline [post_on 4 11, post_on 3 9])" by simp
  have c1: "\<not> too_old None (date_of (last (sort_key pid [post_on 4 11, post_on 3 9])))"
    by (simp add: too_old_def)
  have 1: "statuses_loop ?get demo_clock 7 None False (Suc 4) statuses_init =
           statuses_loop ?get demo_clock 7 None False 4 ?st1"
    using page_recent_continues
            [where get = ?get and st = statuses_init and replies = False and clock = demo_clock
               and n = 4, OF g1 j1 _ c1]
    by (simp add: statuses_init_def too_old_def demo_clock_def)
  have g2: "?get (length (requested ?st1)) (HttpGet (Statuses 7 (\<not> False) (max_id ?st1))) = Inr ?r2"
    by (simp add: demo_page_2)
  have j2: "json ?r2 = Some (Timeline [post_on 2 8, post_on 1 8])" by simp
  have c2: "\<not> too_old None (date_of (last (sort_key pid [post_on 2 8, post_on 1 8])))"
    by (simp add: too_old_def)
  have 2: "statuses_loop ?get demo_clock 7 None False (Suc 3) ?st1 =
           statuses_loop ?get demo_clock 7 None False 3 ?st2"
    using page_recent_continues
            [where get = ?get and st = ?st1 and replies = False and clock = demo_clock
               and n = 3, OF g2 j2 _ c2]
    by (simp add: too_old_def demo_clock_def)
  have g3: "?get (length (requested ?st2)) (HttpGet (Statuses 7 (\<not> False) (max_id ?st2))) = Inr ?r3"
    by (simp add: demo_page_3)
  have j3: "json ?r3 = Some (Timeline [])" by simp
  have 3: "statuses_loop ?get demo_clock 7 None False (Suc 2) ?st2 =
           (Returned, ?st2\<lparr>requested := [None, Some 3, Some 1]\<rparr>)"
    using page_empty_stops
            [where get = ?get and st = ?st2 and replies = False and clock = demo_clock
               and n = 2 and ca = None, OF g3 j3]
    by simp
  have n5: "(5::nat) = Suc 4" and n4: "(4::nat) = Suc 3" and n3: "(3::nat) = Suc 2"
    by simp_all
  show ?thesis
    unfolding statuses_run_def
    by (subst n5, subst 1, subst n4, subst 2, subst n3, subst 3) simp
qed

lemma demo_short_page_1:
  "paged_upstream 3 demo_short_timeline n (HttpGet (Statuses 7 True None)) =
     Inr \<lparr>status = 200, body = JsonStatuses [post_on 3 5, post_on 2 4, post_on 1 3],
          cookies = []\<rparr>"
  by (simp add: paged_upstream_def demo_short_timeline_def)

lemma demo_short_page_2:
  "paged_upstream 3 demo_short_timeline n (HttpGet (Statuses 7 True (Some 1))) =
     Inr \<lparr>status = 200, body = JsonStatuses [], cookies = []\<rparr>"
  by (simp add: paged_upstream_def demo_short_timeline_def)

lemma demo_run_short:
  "statuses_run (paged_upstream 3 demo_short_timeline) demo_clock 7 None False 2 =
     (Returned,
      \<lparr>max_id = Some 1,
       all_posts = [(post_on 1 3)\<lparr>pulled := Some ''now''\<rparr>, (post_on 2 4)\<lparr>pulled := Some ''now''\<rparr>,
                    (post_on 3 5)\<lparr>pulled := Some ''now''\<rparr>],
       ticks = 3, requested = [None, Some 1],
       fetched = [[post_on 1 3, post_on 2 4, post_on 3 5]],
       segments = [[(post_on 1 3)\<lparr>pulled := Some ''now''\<rparr>, (post_on 2 4)\<lparr>pulled := Some ''now''\<rparr>,
                    (post_on 3 5)\<lparr>pulled := Some ''now''\<rparr>]]\<rparr>)"
proof -
  let ?get = "paged_upstream 3 demo_short_timeline"
  let ?r1 = "\<lparr>status = 200, body = JsonStatuses [post_on 3 5, post_on 2 4, post_on 1 3],
          cookies = []\<rparr>"
  let ?r2 = "\<lparr>status = 200, body = JsonStatuses [], cookies = []\<rparr>"
  let ?s1 = "[(post_on 1 3)\<lparr>pulled := Some ''now''\<rparr>, (post_on 2 4)\<lparr>pulled := Some ''now''\<rparr>,
                    (post_on 3 5)\<lparr>pulled := Some ''now''\<rparr>]"
  let ?st1 = "\<lparr>max_id = Some 1, all_posts = ?s1, ticks = Suc (Suc (Suc 0)), requested = [None],
       fetched = [[post_on 1 3, post_on 2 4, post_on 3 5]], segments = [?s1]\<rparr>"
  have g1: "?get (length (requested statuses_init))
              (HttpGet (Statuses 7 (\<not> False) (max_id statuses_init))) = Inr ?r1"
    by (simp add: statuses_init_def demo_short_page_1)
  have j1: "json ?r1 = Some (Timeline [post_on 3 5, post_on 2 4, post_on 1 3])" by simp
  have c1: "\<not> too_old None (date_of (last (sort_key pid [post_on 3 5, post_on 2 4, post_on 1 3])))"
    by (simp add: too_old_def)
  have 1: "statuses_loop ?get demo_clock 7 None False (Suc 1) statuses_init =
           statuses_loop ?get demo_clock 7 None False 1 ?st1"
    using page_recent_continues
            [where get = ?get and st = statuses_init and replies = False and clock = demo_clock
               and n = 1, OF g1 j1 _ c1]
    by (simp add: statuses_init_def too_old_def demo_clock_def)
  have g2: "?get (length (requested ?st1)) (HttpGet (Statuses 7 (\<not> False) (max_id ?st1))) = Inr ?r2"
    by (simp add: demo_short_page_2)
  have j2: "json ?r2 = Some (Timeline [])" by simp
  have 2: "statuses_loop ?get demo_clock 7 None False (Suc 0) ?st1 =
           (Returned, ?st1\<lparr>requested := [None, Some 1]\<rparr>)"
    using page_empty_stops
            [where get = ?get and st = ?st1 and replies = False and clock = demo_clock
               and n = 0 and ca = None, OF g2 j2]
    by simp
  have n2: "(2::nat) = Suc 1" and n1: "(1::nat) = Suc 0" by simp_all
  show ?thesis
    unfolding statuses_run_def
    by (subst n2, subst 1, subst n1, subst 2) simp
qed

lemma statuses_init_inv: "cursor_inv statuses_init" "segments_inv statuses_init"
  by (simp_all add: cursor_inv_def segments_inv_def statuses_init_def)

section \<open>The range walks\<close>

lemma mset_fold_remove1: "mset (fold remove1 ds f) = mset f - mset ds"
  by (induction ds arbitrary: f) (simp_all add: diff_diff_add)

lemma distinct_subset_mset:
  assumes "distinct ds" "set ds \<subseteq> set f"
  shows "mset ds \<subseteq># mset f"
proof (rule mset_subset_eqI)
  fix a
  show "count (mset ds) a \<le> count (mset f) a"
  proof (cases "a \<in> set ds")
    case True
    then have "count (mset ds) a = 1" using assms(1) by (simp add: distinct_count_atmost_1)
    moreover have "a \<in> set f" using True assms(2) by blast
    then have "0 < count (mset f) a" by simp
    ultimately show ?thesis by simp
  next
    case False
    then have "count (mset ds) a = 0" by simp
    then show ?thesis by (metis le0)
  qed
qed

lemma await_any_unfold:
  "await_any pick st = (ds, st1) \<Longrightarrow>
   ds = pick (in_flight st) \<and>
   in_flight st1 = fold remove1 ds (in_flight st) \<and>
   completed st1 = completed st @ ds \<and>
   remaining st1 = remaining st \<and> submitted st1 = submitted st"
  unfolding await_any_def Let_def by (elim Pair_inject, hypsubst) simp

lemma await_any_done:
  assumes v: "valid_scheduler pick" and ne: "in_flight st \<noteq> []"
      and a: "await_any pick st = (ds, st1)"
  shows "ds \<noteq> []"
    and "mset (in_flight st1) + mset ds = mset (in_flight st)"
    and "length (in_flight st1) + length ds = length (in_flight st)"
    and "completed st1 = completed st @ ds"
    and "remaining st1 = remaining st" and "submitted st1 = submitted st"
proof -
  note u = await_any_unfold [OF a]
  have d: "ds = pick (in_flight st)" using u by (rule conjunct1)
  have f: "in_flight st1 = fold remove1 ds (in_flight st)" using u by blast
  have p1: "ds \<noteq> []" and p2: "set ds \<subseteq> set (in_flight st)" and p3: "distinct ds"
    using v ne unfolding valid_scheduler_def d by blast+
  show "ds \<noteq> []" by (rule p1)
  have sub: "mset ds \<subseteq># mset (in_flight st)" using p3 p2 by (rule distinct_subset_mset)
  have "mset (in_flight st1) = mset (in_flight st) - mset ds"
    unfolding f by (rule mset_fold_remove1)
  then show m: "mset (in_flight st1) + mset ds = mset (in_flight st)"
    using sub by (simp add: subset_mset.diff_add)
  have "size (mset (in_flight st1) + mset ds) = size (mset (in_flight st))"
    by (simp only: m)
  then show "length (in_flight st1) + length ds = length (in_flight st)"
    by (simp only: size_union size_mset)
  show "completed st1 = completed st @ ds" using u by blast
  show "remaining st1 = remaining st" using u by blast
  show "submitted st1 = submitted st" using u by blast
qed

lemma posts_loop_complete:
  assumes v: "valid_scheduler pick"
  shows "mset (in_flight st) + mset (completed st) = mset (submitted st) \<Longrightarrow>
         (remaining st \<noteq> [] \<longrightarrow> in_flight st \<noteq> []) \<Longrightarrow>
         \<exists>st'. posts_loop pick st = Some st' \<and> in_flight st' = [] \<and> remaining st' = [] \<and>
               submitted st' = submitted st @ remaining st \<and>
               mset (completed st') = mset (submitted st')"
proof (induction "length (in_flight st) + length (remaining st)" arbitrary: st rule: less_induct)
  case less
  show ?case
  proof (cases "in_flight st = []")
    case True
    then have "posts_loop pick st = Some st" by (subst posts_loop.simps) simp
    with True less.prems show ?thesis by auto
  next
    case False
    obtain ds st1 where a: "await_any pick st = (ds, st1)" by (cases "await_any pick st")
    note d = await_any_done [OF v False a]
    let ?new = "take (length ds) (remaining st1)"
    let ?st2 = "st1\<lparr>in_flight := in_flight st1 @ ?new,
                    remaining := drop (length ds) (remaining st1),
                    submitted := submitted st1 @ ?new\<rparr>"
    have unfold: "posts_loop pick st = posts_loop pick ?st2"
      using False a by (subst posts_loop.simps) simp
    have "length ?new \<le> length ds" by simp
    then have less': "length (in_flight ?st2) + length (remaining ?st2)
                 < length (in_flight st) + length (remaining st)"
      using d(1,3,5) by (cases ds) auto
    have m: "mset (in_flight ?st2) + mset (completed ?st2) = mset (submitted ?st2)"
    proof -
      have "mset (in_flight st1) + mset (completed st1) = mset (submitted st1)"
      proof -
        have "mset (in_flight st1) + mset (completed st1) =
              (mset (in_flight st1) + mset ds) + mset (completed st)"
          using d(4) by simp
        also have "\<dots> = mset (in_flight st) + mset (completed st)" using d(2) by simp
        finally show ?thesis using less.prems(1) d(6) by simp
      qed
      then show ?thesis by simp
    qed
    have r: "remaining ?st2 \<noteq> [] \<longrightarrow> in_flight ?st2 \<noteq> []"
      using d(1) by (cases ds; cases "remaining st1") auto
    from less.hyps [OF less' m r] obtain st' where
      "posts_loop pick ?st2 = Some st'" "in_flight st' = []" "remaining st' = []"
      "submitted st' = submitted ?st2 @ remaining ?st2" "mset (completed st') = mset (submitted st')"
      by blast
    then show ?thesis using unfold d(5,6) by auto
  qed
qed

text \<open>
  The walk of \<open>posts\<close>, for every valid scheduler: it ends, every identifier of the
  range has been submitted once, in order, and the results read are those of the range.
\<close>

lemma posts_walk_complete:
  assumes v: "valid_scheduler pick" and w: "0 < workers"
  shows "\<exists>st. posts_walk pick workers first final = Some (None, st) \<and>
              in_flight st = [] \<and> remaining st = [] \<and>
              submitted st = [first..final] \<and>
              mset (completed st) = mset [first..final] \<and>
              length (completed st) = length [first..final]"
proof -
  let ?st0 = "submit_initial workers first final"
  have m: "mset (in_flight ?st0) + mset (completed ?st0) = mset (submitted ?st0)"
    by (simp add: submit_initial_def Let_def)
  have "0 < nat (workers * 2)" using w by simp
  then have r: "remaining ?st0 \<noteq> [] \<longrightarrow> in_flight ?st0 \<noteq> []"
    by (auto simp: submit_initial_def Let_def)
  from posts_loop_complete [OF v m r] obtain st where
    st: "posts_loop pick ?st0 = Some st" "in_flight st = []" "remaining st = []"
        "submitted st = submitted ?st0 @ remaining ?st0" "mset (completed st) = mset (submitted st)"
    by blast
  have s: "submitted st = [first..final]" using st(4) by (simp add: submit_initial_def Let_def)
  have "size (mset (completed st)) = size (mset [first..final])" using st(5) s by simp
  then have "length (completed st) = length [first..final]" by simp
  with st s w show ?thesis by (simp add: posts_walk_def)
qed

text \<open>
  The walk of \<open>groups\<close>, for every valid scheduler and every range that is not empty: it
  raises in its first turn, with the initial identifiers submitted and no other.
\<close>

lemma groups_walk_raises:
  assumes v: "valid_scheduler pick" and w: "0 < workers" and ne: "first \<le> final"
  shows "\<exists>st. groups_walk pick workers first final = Some (Some AttributeError, st) \<and>
              submitted st = take (nat (workers * 2)) [first..final] \<and>
              remaining st = drop (nat (workers * 2)) [first..final]"
proof -
  let ?st0 = "submit_initial workers first final"
  have "[first..final] \<noteq> []" using ne by simp
  moreover have "0 < nat (workers * 2)" using w by simp
  ultimately have f: "in_flight ?st0 \<noteq> []" by (simp add: submit_initial_def Let_def)
  obtain ds st1 where a: "await_any pick ?st0 = (ds, st1)" by (cases "await_any pick ?st0")
  note d = await_any_done [OF v f a]
  have "groups_loop pick ?st0 = Some (Some AttributeError, st1)"
    using f a d(1) by (subst groups_loop.simps) simp
  moreover have "submitted st1 = take (nat (workers * 2)) [first..final]"
                "remaining st1 = drop (nat (workers * 2)) [first..final]"
    using d(5,6) by (simp_all add: submit_initial_def Let_def)
  ultimately show ?thesis using w by (simp add: groups_walk_def)
qed

lemma take_1_valid: "valid_scheduler (take 1)"
  unfolding valid_scheduler_def
proof (intro allI impI)
  fix f :: "int list"
  assume "f \<noteq> []"
  then obtain x xs where "f = x # xs" by (cases f) auto
  then show "take 1 f \<noteq> [] \<and> set (take 1 f) \<subseteq> set f \<and> distinct (take 1 f)" by simp
qed

lemma range_0_2: "[0..2] = [0, 1, (2::int)]"
  by (simp add: upto_rec1)

text \<open>
  C1 asks of both walks that the identifiers submitted are those of the range, each once,
  and that as many results are read. The walk of \<open>posts\<close> does that
  (\<open>posts_walk_complete\<close>). The walk of \<open>groups\<close> does not: over the range from 0 to 2 with
  one worker thread, with the scheduler that completes the oldest task first, it submits 0
  and 1, reads the result of 0 and raises \<open>AttributeError\<close>; 2 is never submitted, and the
  result of 1 is never read.
\<close>

theorem groups_walk_stops_early:
  "groups_walk (take 1) 1 0 2 =
     Some (Some AttributeError,
           \<lparr>in_flight = [1], remaining = [2], submitted = [0, 1], completed = [0]\<rparr>)"
proof -
  have "groups_loop (take 1) \<lparr>in_flight = [0, 1], remaining = [2], submitted = [0, 1],
                             completed = []\<rparr> =
        Some (Some AttributeError,
           \<lparr>in_flight = [1], remaining = [2], submitted = [0, 1], completed = [0]\<rparr>)"
    by (subst groups_loop.simps) (simp add: await_any_def Let_def)
  then show ?thesis
    by (simp add: groups_walk_def submit_initial_def range_0_2)
qed

section \<open>The date cutoff\<close>

text \<open>
  C2, as the code has it. With \<open>created_after = D\<close>, no post dated before \<open>D\<close> is ever in
  \<open>all_posts\<close>, in the list returned or at any point of the walk. The walk stops, with no
  further request and with none of the page's posts added, as soon as the newest post of a
  page (the one with the highest identifier) is dated before \<open>D\<close>. On a page whose newest
  post is not dated before \<open>D\<close>, the posts dated \<open>D\<close> or later are added, in ascending
  identifier order, and the loop goes on to the next request, whatever the date of the
  page's oldest post.
\<close>

theorem pull_statuses_cutoff:
  "(\<forall>p\<in>set (all_posts (snd (statuses_run get clock ident (Some D) replies fuel))).
      D \<le> date_of p) \<and>
   (\<forall>ps. pull_statuses get clock ident (Some D) replies fuel = Some (Inr ps) \<longrightarrow>
      (\<forall>p\<in>set ps. D \<le> date_of p)) \<and>
   (\<forall>r result.
      get (length (requested st)) (HttpGet (Statuses ident (\<not> replies) (max_id st))) = Inr r \<and>
      json r = Some (Timeline result) \<and> result \<noteq> [] \<longrightarrow>
      (date_of (last (sort_key pid result)) < D \<longrightarrow>
         statuses_loop get clock ident (Some D) replies (Suc n) st =
           (Returned, st\<lparr>requested := requested st @ [max_id st],
                          max_id := Some (pid (hd (sort_key pid result))),
                          fetched := fetched st @ [sort_key pid result]\<rparr>)) \<and>
      (D \<le> date_of (last (sort_key pid result)) \<longrightarrow>
         statuses_loop get clock ident (Some D) replies (Suc n) st =
           statuses_loop get clock ident (Some D) replies n
             (st\<lparr>requested := requested st @ [max_id st],
                 max_id := Some (pid (hd (sort_key pid result))),
                 fetched := fetched st @ [sort_key pid result],
                 all_posts := all_posts st @
                    for_posts clock (Some D) (ticks st) (sort_key pid result) [],
                 ticks := ticks st + length result,
                 segments := segments st @
                    [for_posts clock (Some D) (ticks st) (sort_key pid result) []]\<rparr>) \<and>
         map pid (for_posts clock (Some D) (ticks st) (sort_key pid result) []) =
           map pid (filter (\<lambda>p. D \<le> date_of p) (sort_key pid result))))"
proof -
  have old: "too_old (Some D) d \<longleftrightarrow> d < D" for d by (simp add: too_old_def)
  have 1: "\<forall>p\<in>set (all_posts (snd (statuses_run get clock ident (Some D) replies fuel))).
      D \<le> date_of p"
    using all_posts_recent [of statuses_init "Some D" get clock ident replies fuel]
    by (simp add: statuses_run_def statuses_init_def old not_less)
  have 2: "\<forall>ps. pull_statuses get clock ident (Some D) replies fuel = Some (Inr ps) \<longrightarrow>
      (\<forall>p\<in>set ps. D \<le> date_of p)"
  proof (intro allI impI)
    fix ps
    assume "pull_statuses get clock ident (Some D) replies fuel = Some (Inr ps)"
    then have "ps = all_posts (snd (statuses_run get clock ident (Some D) replies fuel))"
      by (auto simp: pull_statuses_def split: prod.splits exit.splits)
    with 1 show "\<forall>p\<in>set ps. D \<le> date_of p" by simp
  qed
  have 3: "statuses_loop get clock ident (Some D) replies (Suc n) st =
           (Returned, st\<lparr>requested := requested st @ [max_id st],
                          max_id := Some (pid (hd (sort_key pid result))),
                          fetched := fetched st @ [sort_key pid result]\<rparr>)"
    if "get (length (requested st)) (HttpGet (Statuses ident (\<not> replies) (max_id st))) = Inr r"
       "json r = Some (Timeline result)" "result \<noteq> []"
       "date_of (last (sort_key pid result)) < D" for r result
    using page_too_old_stops [where get = get and st = st and ca = "Some D" and clock = clock and n = n, OF that(1-3)] that(4) by (simp only: old)
  have 4: "statuses_loop get clock ident (Some D) replies (Suc n) st =
           statuses_loop get clock ident (Some D) replies n
             (st\<lparr>requested := requested st @ [max_id st],
                 max_id := Some (pid (hd (sort_key pid result))),
                 fetched := fetched st @ [sort_key pid result],
                 all_posts := all_posts st @
                    for_posts clock (Some D) (ticks st) (sort_key pid result) [],
                 ticks := ticks st + length result,
                 segments := segments st @
                    [for_posts clock (Some D) (ticks st) (sort_key pid result) []]\<rparr>)"
    if "get (length (requested st)) (HttpGet (Statuses ident (\<not> replies) (max_id st))) = Inr r"
       "json r = Some (Timeline result)" "result \<noteq> []"
       "D \<le> date_of (last (sort_key pid result))" for r result
    using page_recent_continues [where get = get and st = st and ca = "Some D" and clock = clock and n = n, OF that(1-3)] that(4)
    by (simp only: old not_less)
  have 5: "map pid (for_posts clock (Some D) (ticks st) (sort_key pid result) []) =
           map pid (filter (\<lambda>p. D \<le> date_of p) (sort_key pid result))" for result
    by (simp add: for_posts_ids old not_less)
  show ?thesis using 1 2 3 4 5 by blast
qed

theorem pull_statuses_cutoff_witness:
  "all_posts (snd (statuses_run (paged_upstream 2 demo_timeline) demo_clock 7 (Some 10) False 5))
     = [(post_on 4 11)\<lparr>pulled := Some ''now''\<rparr>] \<and>
   10 \<le> date_of (hd (all_posts
           (snd (statuses_run (paged_upstream 2 demo_timeline) demo_clock 7 (Some 10) False 5))))"
proof -
  let ?st = "snd (statuses_run (paged_upstream 2 demo_timeline) demo_clock 7 (Some 10) False 5)"
  have a: "all_posts ?st = [(post_on 4 11)\<lparr>pulled := Some ''now''\<rparr>]"
    by (simp add: demo_run)
  then have "hd (all_posts ?st) \<in> set (all_posts ?st)" by simp
  then have "10 \<le> date_of (hd (all_posts ?st))"
    using pull_statuses_cutoff
            [of "paged_upstream 2 demo_timeline" demo_clock 7 10 False 5]
    by blast
  with a show ?thesis by simp
qed

text \<open>
  The first page of \<open>demo_timeline\<close> holds the posts 4 and 3, and post 3, its oldest, is
  dated before the cutoff; the walk still sends a second request, with the cursor 3.
\<close>

theorem pull_statuses_cutoff_counterexample:
  "hd (fetched (snd (statuses_run (paged_upstream 2 demo_timeline) demo_clock 7 (Some 10)
                       False 5))) = [post_on 3 9, post_on 4 11] \<and>
   date_of (post_on 3 9) < 10 \<and>
   requested (snd (statuses_run (paged_upstream 2 demo_timeline) demo_clock 7 (Some 10)
                     False 5)) = [None, Some 3]"
  by (simp add: demo_run)

section \<open>The search for the latest user\<close>

text \<open>Rounding to nearest moves a number by half a unit of the last place at most.\<close>

lemma rne_near: "2 * \<bar>rne N d * 2 ^ d - N\<bar> \<le> 2 ^ d"
proof -
  define q where "q = N div 2 ^ d"
  define r where "r = N mod 2 ^ d"
  have N: "N = q * 2 ^ d + r" unfolding q_def r_def by (simp add: div_mult_mod_eq)
  have r: "0 \<le> r" "r < 2 ^ d" unfolding r_def by simp_all
  show ?thesis
  proof (cases "2 ^ d < 2 * r \<or> (2 * r = 2 ^ d \<and> odd q)")
    case True
    then have "rne N d = q + 1" by (simp add: rne_def Let_def q_def r_def)
    then have "rne N d * 2 ^ d - N = 2 ^ d - r" by (simp add: N algebra_simps)
    with True r show ?thesis by auto
  next
    case False
    then have "rne N d = q" by (simp add: rne_def Let_def q_def r_def)
    then have "rne N d * 2 ^ d - N = - r" by (simp add: N)
    with False r show ?thesis by auto
  qed
qed

lemma round53_near:
  assumes "0 < N"
  shows "2 ^ 53 * \<bar>round53 N - N\<bar> \<le> N"
proof (cases "bitlen N \<le> 53")
  case True
  then have "nat (bitlen N - 53) = 0" by simp
  then have "round53 N = N" by (simp add: round53_def rne_def Let_def)
  with assms show ?thesis by simp
next
  case False
  define d where "d = nat (bitlen N - 53)"
  have "nat (bitlen N - 1) = d + 52" using False by (simp add: d_def)
  then have "(2::int) ^ (d + 52) \<le> N" using bitlen_bounds [OF assms] by simp
  then have b: "(2::int) ^ d * 2 ^ 52 \<le> N" by (simp add: power_add)
  have "2 * \<bar>round53 N - N\<bar> \<le> 2 ^ d"
    using rne_near [of N d] by (simp add: round53_def Let_def d_def)
  then have "2 ^ 52 * (2 * \<bar>round53 N - N\<bar>) \<le> 2 ^ 52 * (2::int) ^ d"
    by (rule mult_left_mono) simp
  with b show ?thesis by simp
qed

lemma round53_bounds:
  assumes "0 < N"
  shows "9007199254740991 * N \<le> 9007199254740992 * round53 N"
    and "9007199254740992 * round53 N \<le> 9007199254740993 * N"
proof -
  have n: "2 ^ 53 * \<bar>round53 N - N\<bar> \<le> N" using assms by (rule round53_near)
  have "N - round53 N \<le> \<bar>round53 N - N\<bar>" by simp
  then have "2 ^ 53 * (N - round53 N) \<le> 2 ^ 53 * \<bar>round53 N - N\<bar>"
    by (rule mult_left_mono) simp
  from this n have "2 ^ 53 * (N - round53 N) \<le> N" by (rule order_trans)
  then show "9007199254740991 * N \<le> 9007199254740992 * round53 N"
    by (simp add: algebra_simps)
  have "round53 N - N \<le> \<bar>round53 N - N\<bar>" by simp
  then have "2 ^ 53 * (round53 N - N) \<le> 2 ^ 53 * \<bar>round53 N - N\<bar>"
    by (rule mult_left_mono) simp
  from this n have "2 ^ 53 * (round53 N - N) \<le> N" by (rule order_trans)
  then show "9007199254740992 * round53 N \<le> 9007199254740993 * N"
    by (simp add: algebra_simps)
qed

lemma rne_52_bounds:
  "p - 2251799813685248 \<le> rne p 52 * 4503599627370496"
  "rne p 52 * 4503599627370496 \<le> p + 2251799813685248"
proof -
  define x where "x = rne p 52 * 2 ^ 52"
  have n: "2 * \<bar>x - p\<bar> \<le> 4503599627370496"
    using rne_near [of p 52] by (simp add: x_def)
  have "\<bar>2 * (x - p)\<bar> \<le> 4503599627370496" using n by (simp add: abs_mult)
  then have "2 * (x - p) \<le> 4503599627370496" "- (2 * (x - p)) \<le> 4503599627370496"
    unfolding abs_le_iff by blast+
  then have "p - 2251799813685248 \<le> x" "x \<le> p + 2251799813685248" by simp_all
  then show "p - 2251799813685248 \<le> rne p 52 * 4503599627370496"
    and "rne p 52 * 4503599627370496 \<le> p + 2251799813685248"
    by (simp_all add: x_def)
qed

lemma bump_steps:
  assumes n: "3 \<le> n"
  defines "a \<equiv> round53 n"
  defines "p \<equiv> round53 (a * 5404319552844595)"
  shows "9007199254740991 * n \<le> 9007199254740992 * a"
    and "9007199254740992 * a \<le> 9007199254740993 * n"
    and "9007199254740991 * (a * 5404319552844595) \<le> 9007199254740992 * p"
    and "9007199254740992 * p \<le> 9007199254740993 * (a * 5404319552844595)"
    and "p - 2251799813685248 \<le> rne p 52 * 4503599627370496"
    and "rne p 52 * 4503599627370496 \<le> p + 2251799813685248"
proof -
  have "0 < n" using n by simp
  from round53_bounds [OF this]
  show a1: "9007199254740991 * n \<le> 9007199254740992 * a"
    and "9007199254740992 * a \<le> 9007199254740993 * n"
    by (simp_all add: a_def)
  have "0 < a" using a1 n by simp
  then have "0 < a * 5404319552844595" by simp
  from round53_bounds [OF this]
  show "9007199254740991 * (a * 5404319552844595) \<le> 9007199254740992 * p"
    and "9007199254740992 * p \<le> 9007199254740993 * (a * 5404319552844595)"
    by (simp_all add: p_def)
  show "p - 2251799813685248 \<le> rne p 52 * 4503599627370496"
    and "rne p 52 * 4503599627370496 \<le> p + 2251799813685248"
    by (rule rne_52_bounds)+
qed

lemma bump_unfold:
  assumes "3 \<le> n"
  shows "bump n =
     (if 2 ^ 1024 \<le> round53 n then Inl OverflowError
      else if 2 ^ 1024 * 2 ^ 52 \<le> round53 (round53 n * 5404319552844595)
           then Inl OverflowError
      else Inr (rne (round53 (round53 n * 5404319552844595)) 52))"
proof -
  have "\<bar>n\<bar> = n" "sgn n = 1" using assms by simp_all
  then show ?thesis by (simp add: bump_def Let_def)
qed

lemma bump_error: "bump n = Inl e \<Longrightarrow> e = OverflowError"
  by (auto simp: bump_def Let_def split: if_splits)

lemma bump_grows:
  assumes n: "3 \<le> n" and b: "bump n = Inr m"
  shows "n < m"
proof -
  define a where "a = round53 n"
  define p where "p = round53 (a * 5404319552844595)"
  have m: "m = rne p 52"
    using b unfolding bump_unfold [OF n] a_def p_def by (simp split: if_splits)
  note s = bump_steps [OF n, folded a_def, folded p_def]
  show ?thesis using s(1) s(3) s(5) n unfolding m by linarith
qed

lemma bump_bounded:
  assumes n: "3 \<le> n" and b: "bump n = Inr m"
  shows "m \<le> 2 ^ 1024"
proof -
  define a where "a = round53 n"
  define p where "p = round53 (a * 5404319552844595)"
  have "\<not> 2 ^ 1024 * 2 ^ 52 \<le> p" and m: "m = rne p 52"
    using b unfolding bump_unfold [OF n] a_def p_def by (simp_all split: if_splits)
  then have p: "p < 2 ^ 1024 * 4503599627370496" by simp
  note s = bump_steps [OF n, folded a_def, folded p_def]
  have "rne p 52 * 4503599627370496 < 2 ^ 1024 * 4503599627370496 + 4503599627370496"
    using s(6) p by linarith
  then have "rne p 52 * 4503599627370496 < (2 ^ 1024 + 1) * 4503599627370496"
    by (simp add: algebra_simps)
  then have "rne p 52 < 2 ^ 1024 + 1" by simp
  then show ?thesis unfolding m by simp
qed

lemma bump_defined:
  assumes n: "3 \<le> n" and u: "n < 2 ^ 1023"
  shows "\<exists>m. bump n = Inr m"
proof -
  define a where "a = round53 n"
  define p where "p = round53 (a * 5404319552844595)"
  note s = bump_steps [OF n, folded a_def, folded p_def]
  have a: "a < 2 ^ 1024" using s(2) u by simp
  have "p < 2 ^ 1024 * 2 ^ 52" using s(2) s(4) u by simp
  with a show ?thesis unfolding bump_unfold [OF n] a_def p_def by simp
qed

text \<open>
  The probe: it grows as long as the product stays finite, and it cannot leave the doubles.
\<close>

lemma probe_reaches:
  assumes ex: "\<forall>i. i \<le> K \<longrightarrow> pull i = Inr (Some (ent i))"
      and nx: "\<forall>i. K < i \<longrightarrow> pull i = Inr None"
      and K: "K < 2 ^ 1023"
  shows "3 \<le> ub \<Longrightarrow> \<exists>ub'. probe pull ub = Some (Inr ub') \<and> K < ub' \<and> ub \<le> ub'"
proof (induction "nat (K - ub + 1)" arbitrary: ub rule: less_induct)
  case less
  show ?case
  proof (cases "ub \<le> K")
    case True
    then have "ub < 2 ^ 1023" using K by simp
    with less.prems obtain m where m: "bump ub = Inr m" using bump_defined by blast
    have gt: "ub < m" using less.prems m by (rule bump_grows)
    have "nat (K - m + 1) < nat (K - ub + 1)" using gt True by linarith
    moreover have "3 \<le> m" using gt less.prems by linarith
    ultimately obtain ub' where u: "probe pull m = Some (Inr ub')" "K < ub'" "m \<le> ub'"
      using less.hyps by blast
    have "probe pull ub = probe pull m"
      using ex True m by (subst probe.simps) simp
    with u gt show ?thesis by auto
  next
    case False
    then have "pull ub = Inr None" using nx by simp
    then have "probe pull ub = Some (Inr ub)" by (subst probe.simps) simp
    with False show ?thesis by auto
  qed
qed

lemma probe_overflows:
  assumes ex: "\<forall>i. i \<le> K \<longrightarrow> pull i = Inr (Some (ent i))"
      and K: "2 ^ 1024 \<le> K"
  shows "3 \<le> ub \<Longrightarrow> ub \<le> 2 ^ 1024 \<Longrightarrow> probe pull ub = Some (Inl OverflowError)"
proof (induction "nat (2 ^ 1024 - ub)" arbitrary: ub rule: less_induct)
  case less
  have p: "pull ub = Inr (Some (ent ub))" using ex K less.prems(2) by simp
  show ?case
  proof (cases "bump ub")
    case (Inl e)
    then have "e = OverflowError" by (rule bump_error)
    with Inl p show ?thesis by (subst probe.simps) simp
  next
    case (Inr m)
    have gt: "ub < m" using less.prems(1) Inr by (rule bump_grows)
    have le: "m \<le> 2 ^ 1024" using less.prems(1) Inr by (rule bump_bounded)
    have "nat (2 ^ 1024 - m) < nat (2 ^ 1024 - ub)" using gt le by linarith
    moreover have "3 \<le> m" using gt less.prems(1) by linarith
    ultimately have "probe pull m = Some (Inl OverflowError)" using less.hyps le by blast
    with Inr p show ?thesis by (subst probe.simps) simp
  qed
qed

lemma bsearch_finds:
  "\<forall>i. i \<le> K \<longrightarrow> pull i = Inr (Some (ent i)) \<Longrightarrow>
   \<forall>i. K < i \<longrightarrow> pull i = Inr None \<Longrightarrow>
   lo \<le> K + 1 \<Longrightarrow> K \<le> hi \<Longrightarrow> (lo = K + 1 \<longrightarrow> user = Some (ent K)) \<Longrightarrow>
   bsearch pull lo hi user = Inr (Some (ent K))"
proof (induction pull lo hi user rule: bsearch.induct)
  case (1 pull lo hi user)
  define m where "m = (lo + hi) div 2"
  note ex = "1.prems"(1) and nx = "1.prems"(2)
  show ?case
  proof (cases "lo \<le> hi")
    case False
    with "1.prems" have "lo = K + 1" by linarith
    with "1.prems" False show ?thesis by (subst bsearch.simps) simp
  next
    case True
    then have mb: "lo \<le> m" "m \<le> hi" unfolding m_def by linarith+
    show ?thesis
    proof (cases "m \<le> K")
      case mK: True
      then have p: "pull m = Inr (Some (ent m))" using ex by simp
      have "bsearch pull (m + 1) hi (Some (ent m)) = Inr (Some (ent K))"
        using "1.IH"(2) [OF True p [unfolded m_def] refl ex nx] mK "1.prems"(3-) unfolding m_def by auto
      then show ?thesis using True p unfolding m_def by (subst bsearch.simps) simp
    next
      case mK: False
      then have p: "pull m = Inr None" using nx by simp
      have "bsearch pull lo (m - 1) user = Inr (Some (ent K))"
        using "1.IH"(1) [OF True p [unfolded m_def] refl ex nx] mK mb "1.prems"(3-) unfolding m_def by auto
      then show ?thesis using True p unfolding m_def by (subst bsearch.simps) simp
    qed
  qed
qed

lemma find_candidate_from_exact:
  assumes lb: "3 \<le> lb" "lb \<le> K" and K: "K < 2 ^ 1023"
      and ex: "\<forall>i. i \<le> K \<longrightarrow> pull i = Inr (Some (ent i))"
      and nx: "\<forall>i. K < i \<longrightarrow> pull i = Inr None"
  shows "find_candidate_from lb pull = Some (Inr (Some (ent K)))"
proof -
  obtain ub where u: "probe pull lb = Some (Inr ub)" "K < ub"
    using probe_reaches [OF ex nx K lb(1)] by blast
  have "bsearch pull lb ub None = Inr (Some (ent K))"
    using bsearch_finds [OF ex nx, of lb ub None] lb u by simp
  with u show ?thesis by (simp add: find_candidate_from_def)
qed

lemma pull_user_upstream_upto:
  "pull_user (upstream_upto K) now i =
     (if i \<le> K then Inr (Some (account_record i @ [(''_pulled'', JStr now)])) else Inr None)"
  by (simp add: pull_user_def stamp_entity_def upstream_upto_def account_record_def)

text \<open>
  C3, as the code has it. On an upstream where \<open>pull_user\<close> finds an entity for every
  identifier up to \<open>K\<close> and none above, with \<open>K\<close> at or above the lower bound that
  \<open>find_latest_user\<close> starts from (the constant 5318531) and below \<open>2 ^ 1023\<close>, the
  exponential probe ends, and the binary search that follows it ends with the entity of
  identifier \<open>K\<close> as the user found; that entity is what the staleness check then
  receives.
\<close>

theorem find_latest_user_search_exact:
  assumes "5318531 \<le> K" and "K < 2 ^ 1023"
      and "\<forall>i. i \<le> K \<longrightarrow> pull i = Inr (Some (ent i))"
      and "\<forall>i. K < i \<longrightarrow> pull i = Inr None"
  shows "find_candidate pull = Some (Inr (Some (ent K))) \<and>
         find_latest_user parse utcnow pull = Some (validate parse utcnow (Some (ent K)))"
  unfolding find_candidate_def find_latest_user_def
  using find_candidate_from_exact [of 5318531 K pull ent] assms by simp

theorem find_latest_user_search_exact_witness:
  "(5318531::int) \<le> 6000000 \<and> (6000000::int) < 2 ^ 1023 \<and>
   pull_user (upstream_upto 6000000) ''now'' 6000000 =
     Inr (Some (account_record 6000000 @ [(''_pulled'', JStr ''now'')])) \<and>
   pull_user (upstream_upto 6000000) ''now'' 6000001 = Inr None \<and>
   find_candidate (pull_user (upstream_upto 6000000) ''now'') =
     Some (Inr (Some [(''id'', JNum 6000000), (''username'', JStr ''someone''),
                      (''created_at'', JStr ''then''), (''_pulled'', JStr ''now'')]))"
proof -
  have ex: "\<forall>i. i \<le> 6000000 \<longrightarrow>
        pull_user (upstream_upto 6000000) ''now'' i =
          Inr (Some (account_record i @ [(''_pulled'', JStr ''now'')]))"
    by (simp add: pull_user_upstream_upto)
  have nx: "\<forall>i. 6000000 < i \<longrightarrow> pull_user (upstream_upto 6000000) ''now'' i = Inr None"
    by (simp add: pull_user_upstream_upto)
  have le: "(5318531::int) \<le> 6000000" by simp
  have lt: "(6000000::int) < 2 ^ 1023" by simp
  from find_latest_user_search_exact [OF le lt ex nx]
  have "find_candidate (pull_user (upstream_upto 6000000) ''now'') =
          Some (Inr (Some (account_record 6000000 @ [(''_pulled'', JStr ''now'')])))"
    by simp
  moreover have "pull_user (upstream_upto 6000000) ''now'' 6000000 =
      Inr (Some (account_record 6000000 @ [(''_pulled'', JStr ''now'')]))"
    using ex by simp
  moreover have "pull_user (upstream_upto 6000000) ''now'' 6000001 = Inr None"
    using nx by simp
  ultimately show ?thesis using lt by (simp add: account_record_def)
qed

text \<open>
  With \<open>10 ^ 400\<close> accounts upstream, every identifier the probe reaches exists, and the
  probe ends when the product with 1.2 leaves the doubles: \<open>find_latest_user\<close> raises
  \<open>OverflowError\<close> and finds nobody.
\<close>

theorem find_latest_user_search_overflow_counterexample:
  "(5318531::int) \<le> 10 ^ 400 \<and>
   pull_user (upstream_upto (10 ^ 400)) ''now'' (10 ^ 400) =
     Inr (Some (account_record (10 ^ 400) @ [(''_pulled'', JStr ''now'')])) \<and>
   pull_user (upstream_upto (10 ^ 400)) ''now'' (10 ^ 400 + 1) = Inr None \<and>
   find_candidate (pull_user (upstream_upto (10 ^ 400)) ''now'') = Some (Inl OverflowError) \<and>
   find_latest_user demo_parse 0 (pull_user (upstream_upto (10 ^ 400)) ''now'') =
     Some (Inl OverflowError)"
proof -
  define K :: int where "K = 10 ^ 400"
  have big: "2 ^ 1024 \<le> K" by (simp add: K_def)
  have low: "(5318531::int) \<le> 2 ^ 1024" by simp
  have lb: "5318531 \<le> K" using low big by (rule order_trans)
  have ex: "\<forall>i. i \<le> K \<longrightarrow>
        pull_user (upstream_upto K) ''now'' i =
          Inr (Some (account_record i @ [(''_pulled'', JStr ''now'')]))"
    by (simp add: pull_user_upstream_upto)
  have "probe (pull_user (upstream_upto K) ''now'') 5318531 = Some (Inl OverflowError)"
    using _ low by (rule probe_overflows [OF ex big]) simp
  then have c: "find_candidate (pull_user (upstream_upto K) ''now'') = Some (Inl OverflowError)"
    by (simp add: find_candidate_def find_candidate_from_def)
  then have f: "find_latest_user demo_parse 0 (pull_user (upstream_upto K) ''now'') =
               Some (Inl OverflowError)"
    by (simp add: find_latest_user_def)
  have at: "pull_user (upstream_upto K) ''now'' K =
              Inr (Some (account_record K @ [(''_pulled'', JStr ''now'')]))"
    using ex by simp
  have above: "pull_user (upstream_upto K) ''now'' (K + 1) = Inr None"
    by (simp add: pull_user_upstream_upto)
  have "5318531 \<le> K \<and>
        pull_user (upstream_upto K) ''now'' K =
          Inr (Some (account_record K @ [(''_pulled'', JStr ''now'')])) \<and>
        pull_user (upstream_upto K) ''now'' (K + 1) = Inr None \<and>
        find_candidate (pull_user (upstream_upto K) ''now'') = Some (Inl OverflowError) \<and>
        find_latest_user demo_parse 0 (pull_user (upstream_upto K) ''now'') =
          Some (Inl OverflowError)"
    using lb at above c f by (intro conjI)
  then show ?thesis unfolding K_def .
qed

section \<open>Session refresh\<close>


















section \<open>Absent entities\<close>

text \<open>
  C5. When the request of \<open>pull_user\<close> (of \<open>pull_group\<close>) raises an exception, when the body
  of the response does not decode, and when the API reports "Record not found", the result
  is \<open>None\<close> and nothing is raised. When the API answers with any other record, the result is
  that record with \<open>_pulled\<close> set to the time of the pull: the lookup of every other key is
  unchanged.
\<close>

theorem pull_entity_absent_or_stamped:
  "(\<forall>e. get (HttpGet (Account i)) = Inl e \<longrightarrow> pull_user get now i = Inr None) \<and>
   (\<forall>r. get (HttpGet (Account i)) = Inr r \<and> json r = None \<longrightarrow> pull_user get now i = Inr None) \<and>
   (\<forall>r d. get (HttpGet (Account i)) = Inr r \<and> json r = Some (Document (JObj d)) \<and>
          map_of d ''error'' = Some (JStr ''Record not found'') \<longrightarrow>
          pull_user get now i = Inr None) \<and>
   (\<forall>r d. get (HttpGet (Account i)) = Inr r \<and> json r = Some (Document (JObj d)) \<and>
          map_of d ''error'' \<noteq> Some (JStr ''Record not found'') \<longrightarrow>
          pull_user get now i = Inr (Some (AList.update ''_pulled'' (JStr now) d)) \<and>
          map_of (AList.update ''_pulled'' (JStr now) d) = (map_of d)(''_pulled'' \<mapsto> JStr now)) \<and>
   (\<forall>e. get (HttpGet (Group i)) = Inl e \<longrightarrow> pull_group get now i = Inr None) \<and>
   (\<forall>r. get (HttpGet (Group i)) = Inr r \<and> json r = None \<longrightarrow> pull_group get now i = Inr None) \<and>
   (\<forall>r d. get (HttpGet (Group i)) = Inr r \<and> json r = Some (Document (JObj d)) \<and>
          map_of d ''error'' = Some (JStr ''Record not found'') \<longrightarrow>
          pull_group get now i = Inr None) \<and>
   (\<forall>r d. get (HttpGet (Group i)) = Inr r \<and> json r = Some (Document (JObj d)) \<and>
          map_of d ''error'' \<noteq> Some (JStr ''Record not found'') \<longrightarrow>
          pull_group get now i = Inr (Some (AList.update ''_pulled'' (JStr now) d)) \<and>
          map_of (AList.update ''_pulled'' (JStr now) d) = (map_of d)(''_pulled'' \<mapsto> JStr now))"
  unfolding pull_user_def pull_group_def stamp_entity_def
  by (simp add: update_conv' del: json.simps)

theorem pull_entity_absent_or_stamped_witness:
  "pull_user (upstream_upto 5) ''now'' 9 = Inr None \<and>
   pull_user (upstream_upto 5) ''now'' 3 =
     Inr (Some [(''id'', JNum 3), (''username'', JStr ''someone''),
                (''created_at'', JStr ''then''), (''_pulled'', JStr ''now'')]) \<and>
   pull_group (upstream_upto 5) ''now'' 0 = Inr None \<and>
   pull_group (upstream_upto 5) ''now'' 1 = Inr None \<and>
   pull_group (upstream_upto 5) ''now'' 2 =
     Inr (Some [(''id'', JNum 2), (''title'', JStr ''group''), (''_pulled'', JStr ''now'')])"
proof -
  have a: "upstream_upto 5 (HttpGet (Account 9)) =
             Inr \<lparr>status = 404, body = JsonValue (JObj [(''error'', JStr ''Record not found'')]),
                  cookies = []\<rparr>"
    by (simp add: upstream_upto_def)
  have b: "upstream_upto 5 (HttpGet (Account 3)) =
             Inr \<lparr>status = 200, body = JsonValue (JObj (account_record 3)), cookies = []\<rparr>"
    by (simp add: upstream_upto_def)
  have c: "upstream_upto 5 (HttpGet (Group 0)) = Inl RequestException"
    by (simp add: upstream_upto_def)
  have d: "upstream_upto 5 (HttpGet (Group 1)) =
             Inr \<lparr>status = 200, body = Undecodable, cookies = []\<rparr>"
    by (simp add: upstream_upto_def)
  have e: "upstream_upto 5 (HttpGet (Group 2)) =
             Inr \<lparr>status = 200,
                  body = JsonValue (JObj [(''id'', JNum 2), (''title'', JStr ''group'')]),
                  cookies = []\<rparr>"
    by (simp add: upstream_upto_def)
  have 1: "pull_user (upstream_upto 5) ''now'' 9 = Inr None"
    using pull_entity_absent_or_stamped [of "upstream_upto 5" 9 "''now''"] a by simp
  have 2: "pull_user (upstream_upto 5) ''now'' 3 =
             Inr (Some (AList.update ''_pulled'' (JStr ''now'') (account_record 3)))"
    using pull_entity_absent_or_stamped [of "upstream_upto 5" 3 "''now''"] b
    by (simp add: account_record_def)
  have 3: "pull_group (upstream_upto 5) ''now'' 0 = Inr None"
    using pull_entity_absent_or_stamped [of "upstream_upto 5" 0 "''now''"] c by simp
  have 4: "pull_group (upstream_upto 5) ''now'' 1 = Inr None"
    using pull_entity_absent_or_stamped [of "upstream_upto 5" 1 "''now''"] d by simp
  have 5: "pull_group (upstream_upto 5) ''now'' 2 =
             Inr (Some (AList.update ''_pulled'' (JStr ''now'')
                          [(''id'', JNum 2), (''title'', JStr ''group'')]))"
    using pull_entity_absent_or_stamped [of "upstream_upto 5" 2 "''now''"] e by simp
  show ?thesis using 1 2 3 4 5 by (simp add: account_record_def)
qed

section \<open>Login failures\<close>

lemma cookie_get_absent:
  "map_of jar name = None \<Longrightarrow> cookie_get jar name = Inr None"
proof -
  assume "map_of jar name = None"
  then have "name \<notin> fst ` set jar" by (simp add: map_of_eq_None_iff)
  then have "filter (\<lambda>c. fst c = name) jar = []" by (auto simp: filter_empty_conv)
  then show ?thesis by (simp add: cookie_get_def)
qed

lemma cookie_get_empty:
  "filter (\<lambda>c. fst c = name) jar = [(name, [])] \<Longrightarrow> cookie_get jar name = Inr None"
  by (simp add: cookie_get_def)

text \<open>
  C6, as the code has it. When the sign-in page has no CSRF meta tag, \<open>get_sess_cookie\<close>
  sends the request for the page and nothing else: no POST. When the tag is there with an
  empty \<open>content\<close>, it returns \<open>None\<close> without raising, and sends no POST either. When the
  page carries a token and the login response has no \<open>_session_id\<close> cookie, or one with an
  empty value, the outcome depends on the status of that response: without an HTTP error
  status, \<open>get_sess_cookie\<close> raises \<open>ValueError\<close>, the error for invalid credentials; with
  an HTTP error status, \<open>raise_for_status\<close> raises first, the \<open>except\<close> clause logs the
  failed request and \<open>get_sess_cookie\<close> returns \<open>None\<close>.
\<close>

theorem get_sess_cookie_failures:
  "(\<forall>page. net (sent c) (HttpGet SignIn) = Some page \<and> find_csrf (body page) = None \<longrightarrow>
      sent (snd (get_sess_cookie net c)) = sent c @ [HttpGet SignIn]) \<and>
   (\<forall>page. net (sent c) (HttpGet SignIn) = Some page \<and>
      find_csrf (body page) = Some (Some []) \<longrightarrow>
      get_sess_cookie net c = (Inr None, c\<lparr>sent := sent c @ [HttpGet SignIn]\<rparr>)) \<and>
   (\<forall>page csrf sess_req.
      net (sent c) (HttpGet SignIn) = Some page \<and> \<not> http_error (status page) \<and>
      find_csrf (body page) = Some (Some csrf) \<and> csrf \<noteq> [] \<and>
      net (sent c @ [HttpGet SignIn])
        (HttpPost SignIn [(''user[email]'', username c), (''user[password]'', password c),
                          (''authenticity_token'', csrf)]) = Some sess_req \<and>
      (map_of (cookies sess_req) ''_session_id'' = None \<or>
       filter (\<lambda>ck. fst ck = ''_session_id'') (cookies sess_req) = [(''_session_id'', [])]) \<longrightarrow>
      (\<not> http_error (status sess_req) \<longrightarrow> fst (get_sess_cookie net c) = Inl ValueError) \<and>
      (http_error (status sess_req) \<longrightarrow>
         get_sess_cookie net c =
           (Inr None,
            c\<lparr>sent := sent c @
               [HttpGet SignIn,
                HttpPost SignIn [(''user[email]'', username c), (''user[password]'', password c),
                                 (''authenticity_token'', csrf)]]\<rparr>)))"
proof (intro conjI allI impI)
  fix page
  assume "net (sent c) (HttpGet SignIn) = Some page \<and> find_csrf (body page) = None"
  then show "sent (snd (get_sess_cookie net c)) = sent c @ [HttpGet SignIn]"
    by (simp add: get_sess_cookie_def get_exempt_def)
next
  fix page
  assume "net (sent c) (HttpGet SignIn) = Some page \<and> find_csrf (body page) = Some (Some [])"
  then show "get_sess_cookie net c = (Inr None, c\<lparr>sent := sent c @ [HttpGet SignIn]\<rparr>)"
    by (simp add: get_sess_cookie_def get_exempt_def)
next
  fix page csrf sess_req
  assume a: "net (sent c) (HttpGet SignIn) = Some page \<and> \<not> http_error (status page) \<and>
      find_csrf (body page) = Some (Some csrf) \<and> csrf \<noteq> [] \<and>
      net (sent c @ [HttpGet SignIn])
        (HttpPost SignIn [(''user[email]'', username c), (''user[password]'', password c),
                          (''authenticity_token'', csrf)]) = Some sess_req \<and>
      (map_of (cookies sess_req) ''_session_id'' = None \<or>
       filter (\<lambda>ck. fst ck = ''_session_id'') (cookies sess_req) = [(''_session_id'', [])])"
  then have ck: "cookie_get (cookies sess_req) ''_session_id'' = Inr None"
    using cookie_get_absent cookie_get_empty by blast
  {
    assume "\<not> http_error (status sess_req)"
    with a ck show "fst (get_sess_cookie net c) = Inl ValueError"
      by (simp add: get_sess_cookie_def get_exempt_def Let_def)
  next
    assume "http_error (status sess_req)"
    with a show "get_sess_cookie net c =
           (Inr None,
            c\<lparr>sent := sent c @
               [HttpGet SignIn,
                HttpPost SignIn [(''user[email]'', username c), (''user[password]'', password c),
                                 (''authenticity_token'', csrf)]]\<rparr>)"
      by (simp add: get_sess_cookie_def get_exempt_def Let_def)
  }
qed

theorem get_sess_cookie_failures_witness:
  "sent (snd (get_sess_cookie (login_net None []) demo_client)) = [HttpGet SignIn] \<and>
   get_sess_cookie (login_net (Some (Some [])) []) demo_client =
     (Inr None, demo_client\<lparr>sent := [HttpGet SignIn]\<rparr>) \<and>
   fst (get_sess_cookie (login_net (Some (Some ''token'')) []) demo_client) = Inl ValueError \<and>
   fst (get_sess_cookie (login_net (Some (Some ''token'')) [(''_session_id'', [])]) demo_client)
     = Inl ValueError \<and>
   fst (get_sess_cookie rejecting_net demo_client) = Inr None"
proof -
  have 1: "sent (snd (get_sess_cookie (login_net None []) demo_client)) = [HttpGet SignIn]"
    using get_sess_cookie_failures [of "login_net None []" demo_client]
    by (simp add: login_net_def demo_client_def find_csrf_def)
  have 2: "get_sess_cookie (login_net (Some (Some [])) []) demo_client =
     (Inr None, demo_client\<lparr>sent := [HttpGet SignIn]\<rparr>)"
    using get_sess_cookie_failures [of "login_net (Some (Some [])) []" demo_client]
    by (simp add: login_net_def demo_client_def find_csrf_def)
  have 3: "fst (get_sess_cookie (login_net (Some (Some ''token'')) []) demo_client) = Inl ValueError"
    using get_sess_cookie_failures [of "login_net (Some (Some ''token'')) []" demo_client]
    by (simp add: login_net_def demo_client_def find_csrf_def http_error_def)
  have 4: "fst (get_sess_cookie (login_net (Some (Some ''token'')) [(''_session_id'', [])]) demo_client)
     = Inl ValueError"
    using get_sess_cookie_failures [of "login_net (Some (Some ''token'')) [(''_session_id'', [])]" demo_client]
    by (simp add: login_net_def demo_client_def find_csrf_def http_error_def)
  have 5: "fst (get_sess_cookie rejecting_net demo_client) = Inr None"
    using get_sess_cookie_failures [of rejecting_net demo_client]
    by (simp add: rejecting_net_def demo_client_def find_csrf_def http_error_def)
  show ?thesis using 1 2 3 4 5 by simp
qed

text \<open>
  A login that the server rejects with status 401 and no session cookie: \<open>get_sess_cookie\<close>
  returns \<open>None\<close>, and raises nothing.
\<close>

theorem get_sess_cookie_rejected_login_counterexample:
  "rejecting_net [HttpGet SignIn]
     (HttpPost SignIn [(''user[email]'', ''user''), (''user[password]'', ''secret''),
                       (''authenticity_token'', ''token'')]) =
     Some \<lparr>status = 401, body = Undecodable, cookies = []\<rparr> \<and>
   get_sess_cookie rejecting_net demo_client =
     (Inr None,
      demo_client
        \<lparr>sent := [HttpGet SignIn,
                  HttpPost SignIn [(''user[email]'', ''user''), (''user[password]'', ''secret''),
                                   (''authenticity_token'', ''token'')]]\<rparr>) \<and>
   fst (get_sess_cookie rejecting_net demo_client) \<noteq> Inl ValueError"
  by (simp add: get_sess_cookie_def get_exempt_def rejecting_net_def demo_client_def
                find_csrf_def http_error_def)

text \<open>
  On a sign-in page without the tag, \<open>find\<close> returns \<open>None\<close>, and subscripting it raises
  \<open>TypeError\<close> before the test of the token; the \<open>except\<close> clause lets it through.
\<close>

lemma get_sess_cookie_missing_tag_raises:
  "fst (get_sess_cookie (login_net None []) demo_client) = Inl TypeError"
  by (simp add: get_sess_cookie_def get_exempt_def login_net_def demo_client_def find_csrf_def
                http_error_def)

section \<open>The staleness check\<close>

lemma demo_candidate:
  "find_candidate (pull_user (upstream_upto 6000000) ''now'') =
     Some (Inr (Some (account_record 6000000 @ [(''_pulled'', JStr ''now'')])))"
  unfolding find_candidate_def
  by (rule find_candidate_from_exact) (simp_all add: pull_user_upstream_upto)

text \<open>
  C7. When the search has found a user whose record has the keys the function reads
  (\<open>created_at\<close> with a time the parser accepts, \<open>username\<close> and \<open>id\<close>),
  \<open>find_latest_user\<close> raises \<open>RuntimeError\<close>, its staleness error, exactly when the age of
  that user, the current time minus the creation time, is more than thirty minutes, and
  returns the user found otherwise.
\<close>

theorem find_latest_user_staleness:
  assumes "find_candidate pull = Some (Inr (Some u))"
      and "map_of u ''created_at'' = Some (JStr s)"
      and "parse s = Some created"
      and "map_of u ''username'' = Some name"
      and "map_of u ''id'' = Some ident"
  shows "find_latest_user parse utcnow pull =
           Some (if utcnow - created > thirty_minutes then Inl RuntimeError else Inr u) \<and>
         (find_latest_user parse utcnow pull = Some (Inl RuntimeError)
            \<longleftrightarrow> utcnow - created > thirty_minutes)"
  using assms by (simp add: find_latest_user_def validate_def)

theorem find_latest_user_staleness_witness:
  "find_latest_user demo_parse (1000 + thirty_minutes)
     (pull_user (upstream_upto 6000000) ''now'') =
     Some (Inr (account_record 6000000 @ [(''_pulled'', JStr ''now'')])) \<and>
   find_latest_user demo_parse (1001 + thirty_minutes)
     (pull_user (upstream_upto 6000000) ''now'') = Some (Inl RuntimeError)"
proof -
  let ?u = "account_record 6000000 @ [(''_pulled'', JStr ''now'')]"
  have c: "map_of ?u ''created_at'' = Some (JStr ''then'')" by (simp add: account_record_def)
  have p: "demo_parse ''then'' = Some 1000" by (simp add: demo_parse_def)
  have n: "map_of ?u ''username'' = Some (JStr ''someone'')" by (simp add: account_record_def)
  have i: "map_of ?u ''id'' = Some (JNum 6000000)" by (simp add: account_record_def)
  show ?thesis
    using find_latest_user_staleness
            [where parse = demo_parse and utcnow = "1000 + thirty_minutes",
             OF demo_candidate c p n i]
          find_latest_user_staleness
            [where parse = demo_parse and utcnow = "1001 + thirty_minutes",
             OF demo_candidate c p n i]
    by simp
qed

section \<open>The order of the posts pulled\<close>

text \<open>
  C8, as the code has it. The posts accumulated for one user are the posts kept from each
  page, page after page in the order of the requests; within a page they are in ascending
  order of their identifiers, oldest first, since the page is sorted before it is read;
  and when the upstream answers a request with a cursor with posts below the cursor only,
  every post kept from a later page has a lower identifier than every post kept from an
  earlier page.
\<close>

theorem all_posts_ascending_segments:
  "all_posts (snd (statuses_run get clock ident ca replies fuel)) =
     concat (segments (snd (statuses_run get clock ident ca replies fuel))) \<and>
   (\<forall>s\<in>set (segments (snd (statuses_run get clock ident ca replies fuel))).
      sorted (map pid s)) \<and>
   (below_cursor get ident replies \<longrightarrow>
      sorted_wrt (\<lambda>s t. \<forall>a\<in>set s. \<forall>b\<in>set t. pid b < pid a)
        (segments (snd (statuses_run get clock ident ca replies fuel))))"
proof -
  let ?st = "snd (statuses_run get clock ident ca replies fuel)"
  have "segments_inv ?st"
    unfolding statuses_run_def by (rule segments_inv_loop) (rule statuses_init_inv)
  then have 1: "all_posts ?st = concat (segments ?st)"
        and 2: "\<forall>s\<in>set (segments ?st). sorted (map pid s)"
    by (simp_all add: segments_inv_def)
  have 3: "sorted_wrt (\<lambda>s t. \<forall>a\<in>set s. \<forall>b\<in>set t. pid b < pid a) (segments ?st)"
    if bc: "below_cursor get ident replies"
  proof -
    have "cursor_inv ?st \<and> segments_inv ?st \<and>
          sorted_wrt (\<lambda>s t. \<forall>a\<in>set s. \<forall>b\<in>set t. pid b < pid a) (segments ?st)"
      unfolding statuses_run_def
    proof (rule statuses_loop_invariant
             [where P = "\<lambda>st. cursor_inv st \<and> segments_inv st \<and>
                sorted_wrt (\<lambda>s t. \<forall>a\<in>set s. \<forall>b\<in>set t. pid b < pid a) (segments st)"])
      show "cursor_inv statuses_init \<and> segments_inv statuses_init \<and>
            sorted_wrt (\<lambda>s t. \<forall>a\<in>set s. \<forall>b\<in>set t. pid b < pid a) (segments statuses_init)"
        using statuses_init_inv by (simp add: statuses_init_def)
    next
      fix s fl s' e
      assume "cursor_inv s \<and> segments_inv s \<and>
              sorted_wrt (\<lambda>s t. \<forall>a\<in>set s. \<forall>b\<in>set t. pid b < pid a) (segments s)"
             "statuses_iter get clock ident ca replies s = fl"
             "fl = Continue s' \<or> fl = Break s' \<or> fl = Raise e s'"
      then show "cursor_inv s' \<and> segments_inv s' \<and>
              sorted_wrt (\<lambda>s t. \<forall>a\<in>set s. \<forall>b\<in>set t. pid b < pid a) (segments s')"
        by (rule descending_segments_step [OF bc])
    qed
    then show ?thesis by blast
  qed
  from 1 2 3 show ?thesis by blast
qed

theorem all_posts_ascending_segments_witness:
  "map (map pid)
     (segments (snd (statuses_run (paged_upstream 2 demo_timeline) demo_clock 7 None False 5)))
     = [[3, 4], [1, 2]] \<and>
   all_posts (snd (statuses_run (paged_upstream 2 demo_timeline) demo_clock 7 None False 5)) =
     concat (segments
       (snd (statuses_run (paged_upstream 2 demo_timeline) demo_clock 7 None False 5))) \<and>
   sorted (map pid (hd (segments
       (snd (statuses_run (paged_upstream 2 demo_timeline) demo_clock 7 None False 5)))))"
proof -
  let ?st = "snd (statuses_run (paged_upstream 2 demo_timeline) demo_clock 7 None False 5)"
  have s: "map (map pid) (segments ?st) = [[3, 4], [1, 2]]" by (simp add: demo_run_all)
  then have "hd (segments ?st) \<in> set (segments ?st)" by auto
  then have "all_posts ?st = concat (segments ?st)" "sorted (map pid (hd (segments ?st)))"
    using all_posts_ascending_segments
            [of "paged_upstream 2 demo_timeline" demo_clock 7 None False 5]
    by blast+
  with s show ?thesis by blast
qed

text \<open>
  A timeline of three posts that the upstream serves in one page, newest first: the posts
  come back oldest first.
\<close>

theorem all_posts_newest_first_counterexample:
  "paged_upstream 3 demo_short_timeline 0 (HttpGet (Statuses 7 True None)) =
     Inr \<lparr>status = 200, body = JsonStatuses [post_on 3 5, post_on 2 4, post_on 1 3],
          cookies = []\<rparr> \<and>
   pull_statuses (paged_upstream 3 demo_short_timeline) demo_clock 7 None False 2 =
     Some (Inr [(post_on 1 3)\<lparr>pulled := Some ''now''\<rparr>, (post_on 2 4)\<lparr>pulled := Some ''now''\<rparr>,
                (post_on 3 5)\<lparr>pulled := Some ''now''\<rparr>]) \<and>
   map pid (all_posts
     (snd (statuses_run (paged_upstream 3 demo_short_timeline) demo_clock 7 None False 2)))
     = [1, 2, 3] \<and>
   \<not> sorted_wrt (>) (map pid (all_posts
     (snd (statuses_run (paged_upstream 3 demo_short_timeline) demo_clock 7 None False 2))))"
  by (simp add: pull_statuses_def demo_run_short demo_short_page_1)

section \<open>The pagination cursor\<close>

text \<open>
  C9. When the upstream answers a request with a cursor with posts below the cursor only,
  and lists every page in descending order of the identifiers, then at every point of the
  walk no identifier has been received twice, within a page or across pages, and the
  cursor, once set, is the lowest identifier received so far.
\<close>

theorem pagination_never_refetches:
  assumes bc: "below_cursor get ident replies"
      and dp: "descending_pages get ident replies"
  shows "distinct (concat (map (map pid)
           (fetched (snd (statuses_run get clock ident ca replies fuel))))) \<and>
         (\<forall>m. max_id (snd (statuses_run get clock ident ca replies fuel)) = Some m \<longrightarrow>
            m \<in> set (concat (map (map pid)
                   (fetched (snd (statuses_run get clock ident ca replies fuel))))) \<and>
            (\<forall>i\<in>set (concat (map (map pid)
                   (fetched (snd (statuses_run get clock ident ca replies fuel))))). m \<le> i))"
proof -
  let ?st = "snd (statuses_run get clock ident ca replies fuel)"
  have "cursor_inv ?st \<and> distinct (concat (map (map pid) (fetched ?st)))"
    unfolding statuses_run_def
  proof (rule statuses_loop_invariant
           [where P = "\<lambda>st. cursor_inv st \<and> distinct (concat (map (map pid) (fetched st)))"])
    show "cursor_inv statuses_init \<and> distinct (concat (map (map pid) (fetched statuses_init)))"
      using statuses_init_inv by (simp add: statuses_init_def)
  next
    fix s fl s' e
    assume "cursor_inv s \<and> distinct (concat (map (map pid) (fetched s)))"
           "statuses_iter get clock ident ca replies s = fl"
           "fl = Continue s' \<or> fl = Break s' \<or> fl = Raise e s'"
    then show "cursor_inv s' \<and> distinct (concat (map (map pid) (fetched s')))"
      by (rule distinct_fetched_step [OF bc dp])
  qed
  then have c: "cursor_inv ?st" and d: "distinct (concat (map (map pid) (fetched ?st)))"
    by blast+
  have "m \<in> set (concat (map (map pid) (fetched ?st))) \<and>
        (\<forall>i\<in>set (concat (map (map pid) (fetched ?st))). m \<le> i)"
    if "max_id ?st = Some m" for m
    using c that unfolding cursor_inv_def by fastforce
  with d show ?thesis by blast
qed

theorem pagination_never_refetches_witness:
  "concat (map (map pid)
     (fetched (snd (statuses_run (paged_upstream 2 demo_timeline) demo_clock 7 None False 5))))
     = [3, 4, 1, 2] \<and>
   distinct (concat (map (map pid)
     (fetched (snd (statuses_run (paged_upstream 2 demo_timeline) demo_clock 7 None False 5)))))"
proof -
  have "sorted_wrt (>) (map pid demo_timeline)" by (simp add: demo_timeline_def)
  then have dp: "descending_pages (paged_upstream 2 demo_timeline) 7 False"
    by (rule paged_upstream_descending)
  have bc: "below_cursor (paged_upstream 2 demo_timeline) 7 False"
    by (rule paged_upstream_below_cursor)
  from pagination_never_refetches [OF bc dp, of demo_clock None 5]
  show ?thesis by (simp add: demo_run_all)
qed

section \<open>A search that finds nobody\<close>

text \<open>
  C10. When \<open>pull_user\<close> finds no entity at or above 5318531, the probe stops at once, the
  binary search ends with no user, and \<open>find_latest_user\<close> raises \<open>TypeError\<close>, from
  subscripting \<open>None\<close>: neither a result nor the staleness error.
\<close>

theorem find_latest_user_nothing_found:
  assumes "\<forall>i. 5318531 \<le> i \<longrightarrow> pull i = Inr None"
  shows "find_candidate pull = Some (Inr None) \<and>
         find_latest_user parse utcnow pull = Some (Inl TypeError)"
proof -
  have p: "pull 5318531 = Inr None" using assms by simp
  have "probe pull 5318531 = Some (Inr 5318531)"
    using p by (subst probe.simps) simp
  moreover have "bsearch pull 5318531 5318530 None = Inr None"
    by (subst bsearch.simps) simp
  then have "bsearch pull 5318531 5318531 None = Inr None"
    using p by (subst bsearch.simps) simp
  ultimately have "find_candidate pull = Some (Inr None)"
    by (simp add: find_candidate_def find_candidate_from_def)
  then show ?thesis by (simp add: find_latest_user_def validate_def)
qed

theorem find_latest_user_nothing_found_witness:
  "pull_user (upstream_upto 100) ''now'' 5318531 = Inr None \<and>
   find_candidate (pull_user (upstream_upto 100) ''now'') = Some (Inr None) \<and>
   find_latest_user demo_parse 0 (pull_user (upstream_upto 100) ''now'') = Some (Inl TypeError)"
proof -
  have h: "\<forall>i. 5318531 \<le> i \<longrightarrow> pull_user (upstream_upto 100) ''now'' i = Inr None"
    by (simp add: pull_user_upstream_upto)
  have q: "pull_user (upstream_upto 100) ''now'' 5318531 = Inr None"
    using h by simp
  from find_latest_user_nothing_found [OF h, of demo_parse 0] q show ?thesis by simp
qed

end
